theory Spec2Isabelle
  imports
    Main
    "HOL-Library.Sublist"
    "HOL-Library.Char_ord"
    "HOL-Library.List_Lexorder"
    "HOL-Library.Product_Lexorder"
    "HOL-Library.FSet"
    "HOL-Library.Multiset"
begin

section \<open>Text, character classes and decimal formatting\<close>

text \<open>
  Both scripts work on Python \<open>str\<close> values. A text is modelled as a \<open>string\<close>, one
  \<open>char\<close> per code point, which covers the code points below 256 (ASCII and Latin-1).
  The character classes are those of Python's \<open>re\<close> module on \<open>str\<close> patterns,
  restricted to that range: \<open>\s\<close> and \<open>str.strip\<close> use the same twelve white-space
  characters, \<open>\d\<close> is \<open>0\<close> to \<open>9\<close>, and \<open>\w\<close> is the alphanumeric characters and
  the underscore.
\<close>

definition is_space :: "char \<Rightarrow> bool" where
  "is_space c \<longleftrightarrow> c \<in> set [CHR 0x09, CHR 0x0A, CHR 0x0B, CHR 0x0C, CHR 0x0D, CHR 0x1C,
                          CHR 0x1D, CHR 0x1E, CHR 0x1F, CHR 0x20, CHR 0x85, CHR 0xA0]"

definition is_digit :: "char \<Rightarrow> bool" where
  "is_digit c \<longleftrightarrow> c \<in> set ''0123456789''"

definition code_point :: "char \<Rightarrow> nat" where
  "code_point c = of_char c"

definition is_word :: "char \<Rightarrow> bool" where
  "is_word c \<longleftrightarrow>
     (let n = code_point c in
        (48 \<le> n \<and> n \<le> 57) \<or> (65 \<le> n \<and> n \<le> 90) \<or> n = 95 \<or> (97 \<le> n \<and> n \<le> 122)
        \<or> n = 170 \<or> n = 178 \<or> n = 179 \<or> n = 181 \<or> n = 185 \<or> n = 186
        \<or> (188 \<le> n \<and> n \<le> 190) \<or> (192 \<le> n \<and> n \<le> 214) \<or> (216 \<le> n \<and> n \<le> 246)
        \<or> (248 \<le> n \<and> n \<le> 255))"

text \<open>\<open>sub in s\<close> for two Python strings.\<close>

fun contains :: "string \<Rightarrow> string \<Rightarrow> bool" where
  "contains sub [] \<longleftrightarrow> sub = []"
| "contains sub (x # xs) \<longleftrightarrow> prefix sub (x # xs) \<or> contains sub xs"

text \<open>The decimal digits of a natural number, most significant first.\<close>

function dec_nat :: "nat \<Rightarrow> string" where
  "dec_nat n = (if n < 10 then [''0123456789'' ! n]
                else dec_nat (n div 10) @ [''0123456789'' ! (n mod 10)])"
  by pat_completeness auto
termination
  by (relation "measure (\<lambda>n. n)") auto

declare dec_nat.simps [simp del]

text \<open>
  \<open>f"{n:0wd}"\<close>: the decimal digits padded with zeros on the left to at least \<open>w\<close>
  characters; the sign of a negative number comes first and counts towards the width.
\<close>

definition zfill :: "nat \<Rightarrow> string \<Rightarrow> string" where
  "zfill w s = replicate (w - length s) CHR ''0'' @ s"

definition fmt_d :: "nat \<Rightarrow> int \<Rightarrow> string" where
  "fmt_d w n = (if n < 0 then CHR ''-'' # zfill (w - 1) (dec_nat (nat (- n)))
                else zfill w (dec_nat (nat n)))"


text \<open>
  Reading the digits back gives the number, so formatting with a fixed width is
  injective on the natural numbers; the codes of different counters differ.
\<close>

definition dec_val :: "string \<Rightarrow> nat" where
  "dec_val s = fold (\<lambda>c acc. 10 * acc + (of_char c - 48)) s 0"

lemma digit_char_val:
  assumes "k < 10"
  shows "(of_char (''0123456789'' ! k) :: nat) - 48 = k"
proof -
  from assms have "k \<in> {0, 1, 2, 3, 4, 5, 6, 7, 8, 9}" by auto
  then show ?thesis by auto
qed

lemma dec_val_snoc: "dec_val (s @ [c]) = 10 * dec_val s + (of_char c - 48)"
  by (simp add: dec_val_def)

lemma dec_val_dec_nat: "dec_val (dec_nat n) = n"
proof (induction n rule: dec_nat.induct)
  case (1 n)
  show ?case
  proof (cases "n < 10")
    case True
    then show ?thesis using digit_char_val [of n]
      by (subst dec_nat.simps) (simp add: dec_val_def)
  next
    case False
    have "dec_val (dec_nat n) = 10 * dec_val (dec_nat (n div 10)) + (of_char (''0123456789'' ! (n mod 10)) - 48)"
      using False by (subst dec_nat.simps) (simp add: dec_val_snoc)
    also have "\<dots> = 10 * (n div 10) + n mod 10"
      using 1 [OF False] digit_char_val [of "n mod 10"] by simp
    finally show ?thesis by simp
  qed
qed

lemma dec_val_zeros: "dec_val (replicate k CHR ''0'' @ s) = dec_val s"
proof -
  have "fold (\<lambda>c acc. 10 * acc + (of_char c - 48)) (replicate k CHR ''0'') (0::nat) = 0"
    by (induction k) simp_all
  then show ?thesis by (simp add: dec_val_def)
qed

lemma dec_val_fmt_d: "dec_val (fmt_d w (int n)) = n"
  by (simp add: fmt_d_def zfill_def dec_val_zeros dec_val_dec_nat)

lemma fmt_d_inj: "fmt_d w (int m) = fmt_d w (int n) \<Longrightarrow> m = n"
  by (metis dec_val_fmt_d)

lemma finite_codes:
  "finite {k. date_prefix @ fmt_d w (int k) |\<in>| existing_codes}"
proof -
  have "{k. date_prefix @ fmt_d w (int k) |\<in>| existing_codes}
        \<subseteq> (\<lambda>s. dec_val (drop (length date_prefix) s)) ` fset existing_codes"
  proof
    fix k assume "k \<in> {k. date_prefix @ fmt_d w (int k) |\<in>| existing_codes}"
    then have "date_prefix @ fmt_d w (int k) \<in> fset existing_codes" by simp
    moreover have "dec_val (drop (length date_prefix) (date_prefix @ fmt_d w (int k))) = k"
      by (simp add: dec_val_fmt_d)
    ultimately show "k \<in> (\<lambda>s. dec_val (drop (length date_prefix) s)) ` fset existing_codes"
      by (metis imageI)
  qed
  then show ?thesis by (rule finite_subset) simp
qed


section \<open>Regular-expression scanning\<close>

text \<open>
  A matcher is one attempt of a pattern anchored at the start of a text: it returns the
  captured groups and the number of characters the match consumes. Every pattern of the
  two scripts is a sequence of literals, character-class repetitions and one optional
  character in which no repetition can give back a character that the next item accepts
  (white space is followed by a letter, a parenthesis, a digit, \<open>=\<close>, \<open>,\<close> or \<open>;\<close>; digits
  by \<open>L\<close>, white space, \<open>,\<close> or \<open>;\<close>; word characters by white space or \<open>=\<close>), so the
  backtracking search of \<open>re\<close> finds a match exactly when the greedy left-to-right
  attempt does, and finds that one.
\<close>

type_synonym 'g matcher = "string \<Rightarrow> ('g \<times> nat) option"

definition lit :: "string \<Rightarrow> string \<Rightarrow> string option" where
  "lit p s = (if prefix p s then Some (drop (length p) s) else None)"

definition opt_lit :: "string \<Rightarrow> string \<Rightarrow> string" where
  "opt_lit p s = (case lit p s of Some r \<Rightarrow> r | None \<Rightarrow> s)"

definition many1 :: "(char \<Rightarrow> bool) \<Rightarrow> string \<Rightarrow> string option" where
  "many1 P s = (if takeWhile P s = [] then None else Some (dropWhile P s))"

definition match_literal :: "string \<Rightarrow> unit matcher" where
  "match_literal p s = (if prefix p s then Some ((), length p) else None)"

text \<open>
  \<open>re.sub(pattern, replace_func, content)\<close> with a replacement function that reads and
  advances the enclosing function's \<open>counter\<close> and \<open>replacements\<close>: the text is scanned
  from the left, each match is replaced and the scan resumes after it; a character at
  which no match starts is copied. The patterns here never match the empty string; the
  \<open>max\<close> keeps the recursion well-founded for any matcher.
\<close>

function re_sub :: "'g matcher \<Rightarrow> (int \<Rightarrow> string) \<Rightarrow> string \<Rightarrow> int \<times> nat \<Rightarrow> string \<times> int \<times> nat" where
  "re_sub m repl [] (counter, n) = ([], counter, n)"
| "re_sub m repl (x # xs) (counter, n) =
     (case m (x # xs) of
        Some (g, len) \<Rightarrow>
          (case re_sub m repl (drop (max 1 len) (x # xs)) (counter + 1, n + 1) of
             (out, st) \<Rightarrow> (repl counter @ out, st))
      | None \<Rightarrow>
          (case re_sub m repl xs (counter, n) of (out, st) \<Rightarrow> (x # out, st)))"
  by pat_completeness auto
termination
  by (relation "measure (\<lambda>(m, repl, s, st). length s)") auto

text \<open>\<open>pattern.findall(line)\<close>: the captured groups of the successive matches.\<close>

function re_findall :: "'g matcher \<Rightarrow> string \<Rightarrow> 'g list" where
  "re_findall m [] = []"
| "re_findall m (x # xs) =
     (case m (x # xs) of
        Some (g, len) \<Rightarrow> g # re_findall m (drop (max 1 len) (x # xs))
      | None \<Rightarrow> re_findall m xs)"
  by pat_completeness auto
termination
  by (relation "measure (\<lambda>(m, s). length s)") auto

text \<open>\<open>re.search(pattern, line)\<close> as a truth value.\<close>

fun re_search :: "'g matcher \<Rightarrow> string \<Rightarrow> bool" where
  "re_search m [] \<longleftrightarrow> m [] \<noteq> None"
| "re_search m (x # xs) \<longleftrightarrow> m (x # xs) \<noteq> None \<or> re_search m xs"


section \<open>The rewriter: \<open>convert_exceptions.py\<close>\<close>

definition BIZ_EXCEPTION_IMPORT :: string where
  "BIZ_EXCEPTION_IMPORT = ''import com.alliance.casino.common.exception.BizException;''"

definition throw_pattern :: string where
  "throw_pattern = ''throw new IllegalArgumentException(''"

definition bad_request_pattern :: string where
  "bad_request_pattern = ''BizException.badRequest(''"

definition throw_replacement :: "string \<Rightarrow> int \<Rightarrow> string" where
  "throw_replacement date_prefix counter =
     ''throw BizException.failed('' @ (date_prefix @ fmt_d 5 counter @ ''L'') @ '',''"

definition bad_request_replacement :: "string \<Rightarrow> int \<Rightarrow> string" where
  "bad_request_replacement date_prefix counter =
     ''BizException.failed('' @ (date_prefix @ fmt_d 5 counter @ ''L'') @ '', ''"

definition convert_illegal_argument_exception :: "string \<Rightarrow> int \<Rightarrow> string \<Rightarrow> string \<times> int \<times> nat" where
  "convert_illegal_argument_exception content counter date_prefix =
     re_sub (match_literal throw_pattern) (throw_replacement date_prefix) content (counter, 0)"

definition convert_biz_exception_bad_request :: "string \<Rightarrow> int \<Rightarrow> string \<Rightarrow> string \<times> int \<times> nat" where
  "convert_biz_exception_bad_request content counter date_prefix =
     re_sub (match_literal bad_request_pattern) (bad_request_replacement date_prefix) content (counter, 0)"

text \<open>The pattern \<open>@throws\s+IllegalArgumentException\<close>.\<close>

definition match_javadoc_throws :: "unit matcher" where
  "match_javadoc_throws s =
     (case lit ''@throws'' s of None \<Rightarrow> None | Some s1 \<Rightarrow>
       (case many1 is_space s1 of None \<Rightarrow> None | Some s2 \<Rightarrow>
         (case lit ''IllegalArgumentException'' s2 of None \<Rightarrow> None | Some s3 \<Rightarrow>
            Some ((), length s - length s3))))"

definition update_javadoc_throws :: "string \<Rightarrow> string \<times> nat" where
  "update_javadoc_throws content =
     (case re_sub match_javadoc_throws (\<lambda>_. ''@throws BizException'') content (0, 0) of
        (new_content, _, n) \<Rightarrow> (new_content, n))"

definition has_biz_exception_import :: "string \<Rightarrow> bool" where
  "has_biz_exception_import content \<longleftrightarrow>
     contains BIZ_EXCEPTION_IMPORT content
     \<or> contains ''import com.alliance.casino.common.exception.BizException;'' content"

text \<open>\<open>content.split('\n')\<close> and \<open>'\n'.join(lines)\<close>.\<close>

fun split_nl :: "string \<Rightarrow> string list" where
  "split_nl [] = [[]]"
| "split_nl (c # cs) =
     (if c = CHR 0x0A then [] # split_nl cs
      else (case split_nl cs of l # ls \<Rightarrow> (c # l) # ls | [] \<Rightarrow> [[c]]))"

fun join_nl :: "string list \<Rightarrow> string" where
  "join_nl [] = []"
| "join_nl [l] = l"
| "join_nl (l # ls) = l @ CHR 0x0A # join_nl ls"

text \<open>
  The index of the last line that starts with \<open>import\<close> and a space: the first loop of
  \<open>add_import_if_needed\<close>, with \<open>last_import_index\<close> as the accumulator.
\<close>

fun last_import_loop :: "string list \<Rightarrow> nat \<Rightarrow> nat option \<Rightarrow> nat option" where
  "last_import_loop [] i last_import_index = last_import_index"
| "last_import_loop (line # lines) i last_import_index =
     last_import_loop lines (i + 1)
       (if prefix ''import '' line then Some i else last_import_index)"

text \<open>The inner \<open>while\<close> loop that skips the blank lines after the package line.\<close>

function skip_blank :: "string list \<Rightarrow> nat \<Rightarrow> nat" where
  "skip_blank lines insert_index =
     (if insert_index < length lines \<and> (\<forall>c \<in> set (lines ! insert_index). is_space c)
      then skip_blank lines (insert_index + 1) else insert_index)"
  by pat_completeness auto
termination
  by (relation "measure (\<lambda>(lines, i). length lines - i)") auto

declare skip_blank.simps [simp del]

text \<open>The second loop: the first line that starts with \<open>package\<close> and a space.\<close>

fun package_loop :: "string list \<Rightarrow> string list \<Rightarrow> nat \<Rightarrow> nat option" where
  "package_loop all_lines [] i = None"
| "package_loop all_lines (line # lines) i =
     (if prefix ''package '' line then Some (skip_blank all_lines (i + 1))
      else package_loop all_lines lines (i + 1))"

definition list_insert :: "nat \<Rightarrow> 'a \<Rightarrow> 'a list \<Rightarrow> 'a list" where
  "list_insert i x xs = take i xs @ x # drop i xs"

definition add_import_if_needed :: "string \<Rightarrow> string \<times> bool" where
  "add_import_if_needed content =
     (if has_biz_exception_import content then (content, False)
      else
        let lines = split_nl content;
            insert_index =
              (case last_import_loop lines 0 None of
                 Some last_import_index \<Rightarrow> Some (last_import_index + 1)
               | None \<Rightarrow> package_loop lines lines 0)
        in case insert_index of
             Some i \<Rightarrow> (join_nl (list_insert i BIZ_EXCEPTION_IMPORT lines), True)
           | None \<Rightarrow> (content, False))"

record stats =
  illegal_arg :: nat
  bad_request :: nat
  javadoc :: nat
  import_added :: bool
  modified :: bool

text \<open>
  \<open>process_file\<close> on the decoded text of the file. The result is the new counter, the
  statistics and the text of the file after the call: the converted text when it
  differs from the original and the run is not a dry run, the original otherwise.
\<close>

definition process_file :: "string \<Rightarrow> int \<Rightarrow> string \<Rightarrow> bool \<Rightarrow> int \<times> stats \<times> string" where
  "process_file original_content counter0 date_prefix dry_run =
     (case convert_illegal_argument_exception original_content counter0 date_prefix of
        (content1, counter1, illegal_count) \<Rightarrow>
     (case convert_biz_exception_bad_request content1 counter1 date_prefix of
        (content2, counter2, bad_request_count) \<Rightarrow>
     (case update_javadoc_throws content2 of
        (content3, javadoc_count) \<Rightarrow>
     (case (if illegal_count > 0 \<or> bad_request_count > 0 then add_import_if_needed content3
            else (content3, False)) of
        (content4, added) \<Rightarrow>
       (counter2,
        \<lparr>illegal_arg = illegal_count, bad_request = bad_request_count,
         javadoc = javadoc_count, import_added = added,
         modified = (content4 \<noteq> original_content)\<rparr>,
        if content4 \<noteq> original_content \<and> \<not> dry_run then content4 else original_content)))))"

text \<open>\<open>re.match(r'^\d{8}$', args.date)\<close>: eight digits, then the end of the text or one
  line feed that ends it.\<close>

definition date_format_ok :: "string \<Rightarrow> bool" where
  "date_format_ok date \<longleftrightarrow>
     8 \<le> length date \<and> list_all is_digit (take 8 date)
     \<and> (drop 8 date = [] \<or> drop 8 date = [CHR 0x0A])"

text \<open>
  \<open>find_java_files\<close>. The directory tree is a parameter: \<open>rglob dir_name\<close> is the list
  of the \<open>.java\<close> files under the directory of that name, in the order in which
  \<open>Path.rglob\<close> yields them, and \<open>None\<close> when the directory does not exist. Paths are
  values of a linearly ordered type, as \<open>sorted\<close> needs.
\<close>

definition find_java_files :: "string list \<Rightarrow> (string \<Rightarrow> 'p list option) \<Rightarrow> ('p::linorder) list" where
  "find_java_files directories rglob =
     sort (concat (map (\<lambda>dir_name. case rglob dir_name of Some found \<Rightarrow> found | None \<Rightarrow> [])
                       directories))"

text \<open>
  The loop of \<open>main\<close> over the files, with the counter threaded through. The store maps
  a path to the decoded text of its file; reading a path that the store does not have
  raises, which nothing catches: the counter of the result is then \<open>None\<close>, and the
  files written so far stay written.
\<close>

fun process_files :: "'p list \<Rightarrow> ('p \<rightharpoonup> string) \<Rightarrow> int \<Rightarrow> string \<Rightarrow> bool \<Rightarrow> int option \<times> ('p \<rightharpoonup> string)" where
  "process_files [] files counter date_prefix dry_run = (Some counter, files)"
| "process_files (filepath # rest) files counter date_prefix dry_run =
     (case files filepath of
        None \<Rightarrow> (None, files)
      | Some content \<Rightarrow>
          (case process_file content counter date_prefix dry_run of
             (counter', stats, content') \<Rightarrow>
               process_files rest (files(filepath \<mapsto> content')) counter' date_prefix dry_run))"

text \<open>
  \<open>main\<close> of the rewriter on the parsed arguments: the exit status, or the uncaught
  exception, and the store after the run.
\<close>

datatype outcome = Exit nat | Uncaught_exception

definition rewriter_main :: "string \<Rightarrow> bool \<Rightarrow> string list \<Rightarrow> int \<Rightarrow> (string \<Rightarrow> 'p list option)
    \<Rightarrow> ('p \<rightharpoonup> string) \<Rightarrow> outcome \<times> (('p::linorder) \<rightharpoonup> string)" where
  "rewriter_main date dry_run dirs start_counter rglob files =
     (if \<not> date_format_ok date then (Exit 1, files)
      else
        (case process_files (find_java_files dirs rglob) files start_counter date dry_run of
           (Some counter, files') \<Rightarrow> (Exit 0, files')
         | (None, files') \<Rightarrow> (Uncaught_exception, files')))"


section \<open>The resolver: \<open>fix_duplicate_biz_exception_codes.py\<close>\<close>

record error_code_location =
  file_path :: string
  line_num :: nat
  line_content :: string
  constant_name :: "string option"
  is_constant_def :: bool

text \<open>\<open>line.strip()\<close>.\<close>

definition strip :: "string \<Rightarrow> string" where
  "strip s = rev (dropWhile is_space (rev (dropWhile is_space s)))"

text \<open>
  The pattern \<open>private\s+static\s+final\s+long\s+(ERROR_\w+)\s*=\s*(\d+)L?\s*;\<close> with
  its two groups, the name of the constant and the code.
\<close>

definition match_constant :: "(string \<times> string) matcher" where
  "match_constant s =
     (case lit ''private'' s of None \<Rightarrow> None | Some s1 \<Rightarrow>
       (case many1 is_space s1 of None \<Rightarrow> None | Some s2 \<Rightarrow>
       (case lit ''static'' s2 of None \<Rightarrow> None | Some s3 \<Rightarrow>
       (case many1 is_space s3 of None \<Rightarrow> None | Some s4 \<Rightarrow>
       (case lit ''final'' s4 of None \<Rightarrow> None | Some s5 \<Rightarrow>
       (case many1 is_space s5 of None \<Rightarrow> None | Some s6 \<Rightarrow>
       (case lit ''long'' s6 of None \<Rightarrow> None | Some s7 \<Rightarrow>
       (case many1 is_space s7 of None \<Rightarrow> None | Some s8 \<Rightarrow>
       (case lit ''ERROR_'' s8 of None \<Rightarrow> None | Some s9 \<Rightarrow>
       (case many1 is_word s9 of None \<Rightarrow> None | Some s10 \<Rightarrow>
       (case lit ''='' (dropWhile is_space s10) of None \<Rightarrow> None | Some s11 \<Rightarrow>
       (case many1 is_digit (dropWhile is_space s11) of None \<Rightarrow> None | Some s12 \<Rightarrow>
       (case lit '';'' (dropWhile is_space (opt_lit ''L'' s12)) of None \<Rightarrow> None | Some s13 \<Rightarrow>
          Some ((''ERROR_'' @ takeWhile is_word s9,
                 takeWhile is_digit (dropWhile is_space s11)),
                length s - length s13))))))))))))))"

text \<open>The pattern \<open>BizException\.failed\s*\(\s*(\d+)L?\s*,\<close> with its group, the code.\<close>

definition match_inline :: "string matcher" where
  "match_inline s =
     (case lit ''BizException.failed'' s of None \<Rightarrow> None | Some s1 \<Rightarrow>
       (case lit ''('' (dropWhile is_space s1) of None \<Rightarrow> None | Some s2 \<Rightarrow>
       (case many1 is_digit (dropWhile is_space s2) of None \<Rightarrow> None | Some s3 \<Rightarrow>
       (case lit '','' (dropWhile is_space (opt_lit ''L'' s3)) of None \<Rightarrow> None | Some s4 \<Rightarrow>
          Some (takeWhile is_digit (dropWhile is_space s2), length s - length s4)))))"

text \<open>The pattern \<open>BizException\.failed\s*\(\s*ERROR_\<close> of the check for a constant.\<close>

definition match_constant_call :: "unit matcher" where
  "match_constant_call s =
     (case lit ''BizException.failed'' s of None \<Rightarrow> None | Some s1 \<Rightarrow>
       (case lit ''('' (dropWhile is_space s1) of None \<Rightarrow> None | Some s2 \<Rightarrow>
       (case lit ''ERROR_'' (dropWhile is_space s2) of None \<Rightarrow> None | Some s3 \<Rightarrow>
          Some ((), length s - length s3))))"

text \<open>
  \<open>code_locations\<close> is a \<open>defaultdict(list)\<close>; a dictionary keeps its keys in the order
  of their first insertion, which is the order in which \<open>items()\<close> yields them, so it is
  an association list. \<open>d[key].append(value)\<close>:
\<close>

fun dict_append :: "('k \<times> 'v list) list \<Rightarrow> 'k \<Rightarrow> 'v \<Rightarrow> ('k \<times> 'v list) list" where
  "dict_append [] key v = [(key, [v])]"
| "dict_append ((k, vs) # rest) key v =
     (if k = key then (k, vs @ [v]) # rest else (k, vs) # dict_append rest key v)"

text \<open>\<open>d.get(key, [])\<close>, to read an index.\<close>

fun dict_get :: "('k \<times> 'v list) list \<Rightarrow> 'k \<Rightarrow> 'v list" where
  "dict_get [] key = []"
| "dict_get ((k, vs) # rest) key = (if k = key then vs else dict_get rest key)"

text \<open>The body of the loop over the lines of a file, for one line.\<close>

definition inline_codes :: "string \<Rightarrow> string list" where
  "inline_codes line =
     (if contains ''BizException.failed('' line
      then (if \<not> re_search match_constant_call line then re_findall match_inline line else [])
      else [])"

definition scan_line :: "string \<Rightarrow> nat \<Rightarrow> string
    \<Rightarrow> (string \<times> error_code_location list) list \<Rightarrow> (string \<times> error_code_location list) list" where
  "scan_line path n line code_locations =
     fold (\<lambda>code acc. dict_append acc code
             \<lparr>file_path = path, line_num = n, line_content = strip line,
              constant_name = None, is_constant_def = False\<rparr>)
       (inline_codes line)
       (fold (\<lambda>(const_name, code) acc. dict_append acc code
                \<lparr>file_path = path, line_num = n, line_content = strip line,
                 constant_name = Some const_name, is_constant_def = True\<rparr>)
          (re_findall match_constant line) code_locations)"

fun scan_lines :: "string \<Rightarrow> nat \<Rightarrow> string list
    \<Rightarrow> (string \<times> error_code_location list) list \<Rightarrow> (string \<times> error_code_location list) list" where
  "scan_lines path n [] code_locations = code_locations"
| "scan_lines path n (line # rest) code_locations =
     scan_lines path (n + 1) rest (scan_line path n line code_locations)"

text \<open>
  The project tree as the resolver sees it: for each target directory the list that
  \<open>glob\<close> returns for it, in the order in which \<open>glob\<close> returns it, or \<open>None\<close> when the
  directory does not exist; the list that \<open>glob\<close> returns for the whole project; and
  for each path the lines of the file as \<open>readlines\<close> returns them, or \<open>None\<close> when the
  file cannot be read.
\<close>

record project =
  target_dir_files :: "string \<Rightarrow> string list option"
  project_files :: "string list"
  read_lines :: "string \<rightharpoonup> string list"

definition target_dirs :: "string list" where
  "target_dirs =
     [''cage-features/src/main/java'',
      ''gaming-table-feature/src/main/java'',
      ''user-features/src/main/java'',
      ''common-shared/src/main/java'',
      ''login-feature/src/main/java'',
      ''image-feature/src/main/java'',
      ''shared-infrastructure/src/main/java'']"

definition java_files :: "project \<Rightarrow> string list" where
  "java_files p =
     (let found = concat (map (\<lambda>target_dir. case target_dir_files p target_dir of
                                  Some fs \<Rightarrow> fs | None \<Rightarrow> []) target_dirs)
      in if found = [] then project_files p else found)"

text \<open>A file that cannot be read is skipped with a warning.\<close>

definition scan_file :: "project \<Rightarrow> string
    \<Rightarrow> (string \<times> error_code_location list) list \<Rightarrow> (string \<times> error_code_location list) list" where
  "scan_file p path code_locations =
     (case read_lines p path of
        None \<Rightarrow> code_locations
      | Some lines \<Rightarrow> scan_lines path 1 lines code_locations)"

definition find_all_error_codes :: "project \<Rightarrow> (string \<times> error_code_location list) list" where
  "find_all_error_codes p = fold (scan_file p) (java_files p) []"

definition find_duplicates :: "(string \<times> error_code_location list) list
    \<Rightarrow> (string \<times> error_code_location list) list" where
  "find_duplicates code_locations = filter (\<lambda>(code, locations). length locations > 1) code_locations"

definition get_all_existing_codes :: "(string \<times> error_code_location list) list \<Rightarrow> string fset" where
  "get_all_existing_codes code_locations = fset_of_list (map fst code_locations)"

text \<open>
  \<open>generate_new_code\<close>. The date prefix is a parameter, the value of
  \<open>base_date.strftime('%Y%m%d')\<close>. The loop starts at counter 1 and stops at the first
  code that is not in the set.
\<close>

function generate_loop :: "string fset \<Rightarrow> string \<Rightarrow> nat \<Rightarrow> string" where
  "generate_loop existing_codes date_prefix counter =
     (if date_prefix @ fmt_d 4 (int counter) |\<notin>| existing_codes
      then date_prefix @ fmt_d 4 (int counter)
      else if counter + 1 > 9999 \<and> date_prefix @ fmt_d 6 (int (counter + 1)) |\<notin>| existing_codes
      then date_prefix @ fmt_d 6 (int (counter + 1))
      else generate_loop existing_codes date_prefix (counter + 1))"
  by pat_completeness auto
termination
proof (relation "measure (\<lambda>(existing_codes, date_prefix, counter).
          card {k. counter \<le> k \<and> date_prefix @ fmt_d 4 (int k) |\<in>| existing_codes})")
  show "wf (measure (\<lambda>(existing_codes, date_prefix, counter).
          card {k. counter \<le> k \<and> date_prefix @ fmt_d 4 (int k) |\<in>| existing_codes}))"
    by simp
next
  fix existing_codes :: "string fset" and date_prefix :: string and counter :: nat
  assume "\<not> date_prefix @ fmt_d 4 (int counter) |\<notin>| existing_codes"
  then have m: "date_prefix @ fmt_d 4 (int counter) |\<in>| existing_codes" by simp
  let ?A = "{k. counter \<le> k \<and> date_prefix @ fmt_d 4 (int k) |\<in>| existing_codes}"
  let ?B = "{k. counter + 1 \<le> k \<and> date_prefix @ fmt_d 4 (int k) |\<in>| existing_codes}"
  have "finite ?A" using finite_codes [of date_prefix 4 existing_codes] by simp
  moreover have "?B \<subset> ?A"
  proof
    show "?B \<subseteq> ?A" by auto
    have "counter \<in> ?A" using m by simp
    moreover have "counter \<notin> ?B" by simp
    ultimately show "?B \<noteq> ?A" by blast
  qed
  ultimately have "card ?B < card ?A" by (rule psubset_card_mono)
  then show "((existing_codes, date_prefix, counter + 1), (existing_codes, date_prefix, counter))
      \<in> measure (\<lambda>(existing_codes, date_prefix, counter).
          card {k. counter \<le> k \<and> date_prefix @ fmt_d 4 (int k) |\<in>| existing_codes})"
    by simp
qed

declare generate_loop.simps [simp del]

definition generate_new_code :: "string fset \<Rightarrow> string \<Rightarrow> string" where
  "generate_new_code existing_codes date_prefix = generate_loop existing_codes date_prefix 1"

text \<open>
  A change record, the tuple that \<open>fix_duplicates\<close> appends to \<open>changes\<close>: file path,
  line number, old code, new code, constant name, constant-definition flag, line text.
\<close>

record change =
  change_file :: string
  change_line :: nat
  old_code :: string
  new_code :: string
  const_name :: "string option"
  is_const_def :: bool
  original_text :: string

text \<open>
  The first part of \<open>fix_duplicates\<close>: the loops that build \<open>changes\<close> and extend
  \<open>all_codes\<close>. \<open>generate_new_code\<close> is called without a date and reads the clock at
  each call: \<open>today i\<close> is the date prefix that the call after \<open>i\<close> earlier calls gets.
\<close>

fun replace_locations :: "(nat \<Rightarrow> string) \<Rightarrow> string \<Rightarrow> error_code_location list
    \<Rightarrow> change list \<times> string fset \<Rightarrow> change list \<times> string fset" where
  "replace_locations today code [] (changes, all_codes) = (changes, all_codes)"
| "replace_locations today code (location # rest) (changes, all_codes) =
     (let new = generate_new_code all_codes (today (length changes))
      in replace_locations today code rest
           (changes @ [\<lparr>change_file = file_path location, change_line = line_num location,
                         old_code = code, new_code = new,
                         const_name = constant_name location,
                         is_const_def = is_constant_def location,
                         original_text = line_content location\<rparr>],
            finsert new all_codes))"

definition sorted_locations :: "error_code_location list \<Rightarrow> error_code_location list" where
  "sorted_locations locations = sort_key (\<lambda>loc. (file_path loc, line_num loc)) locations"

fun plan_changes :: "(nat \<Rightarrow> string) \<Rightarrow> (string \<times> error_code_location list) list
    \<Rightarrow> change list \<times> string fset \<Rightarrow> change list \<times> string fset" where
  "plan_changes today [] st = st"
| "plan_changes today ((code, locations) # rest) st =
     plan_changes today rest
       (replace_locations today code (drop 1 (sorted_locations locations)) st)"

text \<open>\<open>s.replace(old, new, 1)\<close>.\<close>

fun replace1 :: "string \<Rightarrow> string \<Rightarrow> string \<Rightarrow> string" where
  "replace1 old new [] = (if old = [] then new else [])"
| "replace1 old new (x # xs) =
     (if prefix old (x # xs) then new @ drop (length old) (x # xs)
      else x # replace1 old new xs)"

text \<open>The new text of a line for one change.\<close>

definition patch_line :: "change \<Rightarrow> string \<Rightarrow> string" where
  "patch_line ch original_line =
     (if is_const_def ch \<and> const_name ch \<noteq> None \<and> const_name ch \<noteq> Some []
      then replace1 (old_code ch @ ''L'') (new_code ch @ ''L'') original_line
      else if contains (''BizException.failed('' @ old_code ch @ ''L,'') original_line
      then replace1 (''BizException.failed('' @ old_code ch @ ''L,'')
             (''BizException.failed('' @ new_code ch @ ''L,'') original_line
      else replace1 (''BizException.failed('' @ old_code ch @ '','')
             (''BizException.failed('' @ new_code ch @ ''L,'') original_line)"

text \<open>
  The changes of one file, applied to its lines in turn. \<open>lines[idx]\<close> with an index out
  of range raises, which the \<open>except\<close> of the loop over the files catches: the result is
  \<open>None\<close> and the file is not written.
\<close>

fun apply_line_changes :: "change list \<Rightarrow> string list \<Rightarrow> string list option" where
  "apply_line_changes [] lines = Some lines"
| "apply_line_changes (ch # rest) lines =
     (let idx = int (change_line ch) - 1;
          i = (if idx < 0 then idx + int (length lines) else idx)
      in if i < 0 \<or> int (length lines) \<le> i then None
         else apply_line_changes rest (lines[nat i := patch_line ch (lines ! nat i)]))"

text \<open>
  The loop over the files with changes. A file is its list of lines, which
  \<open>writelines\<close> writes and \<open>readlines\<close> reads back.
\<close>

fun apply_file_changes :: "(string \<times> change list) list \<Rightarrow> (string \<rightharpoonup> string list)
    \<Rightarrow> (string \<rightharpoonup> string list)" where
  "apply_file_changes [] files = files"
| "apply_file_changes ((path, line_changes) # rest) files =
     apply_file_changes rest
       (case files path of
          None \<Rightarrow> files
        | Some lines \<Rightarrow>
            (case apply_line_changes line_changes lines of
               None \<Rightarrow> files
             | Some lines' \<Rightarrow> files(path \<mapsto> lines')))"

definition fix_duplicates :: "(nat \<Rightarrow> string) \<Rightarrow> project \<Rightarrow> (string \<times> error_code_location list) list
    \<Rightarrow> string fset \<Rightarrow> bool \<Rightarrow> change list \<times> project" where
  "fix_duplicates today p duplicates existing_codes dry_run =
     (let changes = fst (plan_changes today duplicates ([], existing_codes))
      in if dry_run then (changes, p)
         else
           (let file_changes = fold (\<lambda>ch acc. dict_append acc (change_file ch) ch) changes []
            in (changes, p\<lparr>read_lines := apply_file_changes file_changes (read_lines p)\<rparr>)))"

text \<open>
  \<open>main\<close> of the resolver on the parsed arguments: the exit status and the project
  after the run.
\<close>

definition resolver_main :: "bool \<Rightarrow> (nat \<Rightarrow> string) \<Rightarrow> project \<Rightarrow> nat \<times> project" where
  "resolver_main fix today p =
     (let code_locations = find_all_error_codes p;
          duplicates = find_duplicates code_locations
      in if duplicates = [] then (0, p)
         else if fix
         then (1, snd (fix_duplicates today p duplicates
                         (get_all_existing_codes code_locations) False))
         else (1, p))"


section \<open>Notions used to state the properties\<close>

text \<open>
  The number of matches of a literal pattern in a text, as \<open>re\<close> counts them: from the
  left, not overlapping.
\<close>

definition count_matches :: "string \<Rightarrow> string \<Rightarrow> nat" where
  "count_matches p s = length (re_findall (match_literal p) s)"

text \<open>The text that a substitution returns, without the counters.\<close>

definition sub_text :: "'g matcher \<Rightarrow> (int \<Rightarrow> string) \<Rightarrow> string \<Rightarrow> int \<Rightarrow> string" where
  "sub_text m repl s counter = fst (re_sub m repl s (counter, 0))"

text \<open>A pattern that no proper shift of itself overlaps: two matches never overlap.\<close>

definition unbordered :: "string \<Rightarrow> bool" where
  "unbordered p \<longleftrightarrow> (\<forall>k \<in> set [1..<length p]. \<not> prefix (drop k p) p)"

text \<open>
  The number of places at which a text occurs in another (overlapping occurrences
  count).
\<close>

fun occ :: "string \<Rightarrow> string \<Rightarrow> nat" where
  "occ q [] = 0"
| "occ q (x # xs) = (if prefix q (x # xs) then 1 else 0) + occ q xs"

text \<open>
  \<open>rewrites_to M R s out\<close>: the text \<open>out\<close> is \<open>s\<close> with some disjoint pieces, each a
  member of \<open>M\<close>, replaced by members of \<open>R\<close>.
\<close>

inductive rewrites_to :: "string set \<Rightarrow> string set \<Rightarrow> string \<Rightarrow> string \<Rightarrow> bool"
  for M :: "string set" and R :: "string set" where
  rw_Nil: "rewrites_to M R [] []"
| rw_copy: "rewrites_to M R s out \<Longrightarrow> rewrites_to M R (x # s) (x # out)"
| rw_repl: "m \<in> M \<Longrightarrow> r \<in> R \<Longrightarrow> rewrites_to M R s out \<Longrightarrow> rewrites_to M R (m @ s) (r @ out)"

text \<open>
  A text \<open>q\<close> is apart from the texts of \<open>R\<close> when no occurrence of \<open>q\<close> can overlap
  a member of \<open>R\<close>, whatever surrounds it: no proper end of \<open>q\<close> runs into the start
  of a member, and \<open>q\<close> starts at no position inside one.
\<close>

definition apart :: "string \<Rightarrow> string set \<Rightarrow> bool" where
  "apart q R \<longleftrightarrow>
     (\<forall>r \<in> R. r \<noteq> []
        \<and> (\<forall>k z. 0 < k \<and> k < length q \<longrightarrow> \<not> prefix (drop k q) (r @ z))
        \<and> (\<forall>i z. i < length r \<longrightarrow> \<not> prefix q (drop i r @ z)))"

text \<open>Two texts that differ at a position both have.\<close>

fun clash :: "string \<Rightarrow> string \<Rightarrow> bool" where
  "clash (x # xs) (y # ys) \<longleftrightarrow> x \<noteq> y \<or> clash xs ys"
| "clash _ _ \<longleftrightarrow> False"

text \<open>
  The characters of a generated code before its suffix: the date prefix that \<open>main\<close>
  accepts and the formatted counter.
\<close>

definition code_chars :: "char set" where
  "code_chars = {c. is_digit c} \<union> {CHR 0x0A, CHR ''-''}"

text \<open>The replacement texts of the two conversions, for all counters.\<close>

definition throw_texts :: "string \<Rightarrow> string set" where
  "throw_texts d = {throw_replacement d c | c. True}"

definition bad_texts :: "string \<Rightarrow> string set" where
  "bad_texts d = {bad_request_replacement d c | c. True}"

text \<open>
  \<open>s.split(p)\<close> for a text \<open>p\<close> that is not empty: the pieces of \<open>s\<close> between the
  matches of \<open>p\<close>; and the text made of pieces with a replacement between each two.
\<close>

function split_on :: "string \<Rightarrow> string \<Rightarrow> string list" where
  "split_on p [] = [[]]"
| "split_on p (x # xs) =
     (if p \<noteq> [] \<and> prefix p (x # xs) then [] # split_on p (drop (length p) (x # xs))
      else (case split_on p xs of l # ls \<Rightarrow> (x # l) # ls | [] \<Rightarrow> [[x]]))"
  by pat_completeness auto
termination
  by (relation "measure (\<lambda>(p, s). length s)") (auto simp: neq_Nil_conv)

fun weave :: "string list \<Rightarrow> string list \<Rightarrow> string" where
  "weave (l # l' # ls) (r # rs) = l @ r @ weave (l' # ls) rs"
| "weave ls rs = concat ls"

definition counters_from :: "int \<Rightarrow> nat \<Rightarrow> int list" where
  "counters_from k n = map (\<lambda>i. k + int i) [0..<n]"

text \<open>The number of codes that a file text consumes: its matches of the two patterns.\<close>

definition codes_in :: "string \<Rightarrow> nat" where
  "codes_in content = count_matches throw_pattern content + count_matches bad_request_pattern content"

text \<open>
  The text of a file after the three substitutions of \<open>process_file\<close>, which is the
  text that \<open>add_import_if_needed\<close> receives; and the condition under which that
  function finds a place for the import: a line that starts with \<open>import\<close> or with
  \<open>package\<close> and a space.
\<close>

definition converted_text :: "string \<Rightarrow> int \<Rightarrow> string \<Rightarrow> string" where
  "converted_text content k d =
     (case convert_illegal_argument_exception content k d of (c1, k1, n1) \<Rightarrow>
      case convert_biz_exception_bad_request c1 k1 d of (c2, k2, n2) \<Rightarrow>
        fst (update_javadoc_throws c2))"

definition has_insertion_point :: "string \<Rightarrow> bool" where
  "has_insertion_point content \<longleftrightarrow>
     (\<exists>line \<in> set (split_nl content). prefix ''import '' line \<or> prefix ''package '' line)"

text \<open>
  The place of the import line, from the lines of the text: the number of lines up to
  and including the last one that starts with \<open>import\<close> and a space; when there is
  none, the index just after the first line that starts with \<open>package\<close> and a space
  and after the blank lines that follow it; no place when there is neither.
\<close>

definition insertion_index :: "string list \<Rightarrow> nat option" where
  "insertion_index lines =
     (if list_ex (prefix ''import '') lines
      then Some (length (dropWhile (\<lambda>line. \<not> prefix ''import '' line) (rev lines)))
      else if list_ex (prefix ''package '') lines
      then let p = length (takeWhile (\<lambda>line. \<not> prefix ''package '' line) lines)
           in Some (p + 1 + length (takeWhile (list_all is_space) (drop (p + 1) lines)))
      else None)"

text \<open>The replacement of the Javadoc substitution, and the texts that its pattern matches.\<close>

definition javadoc_text :: string where
  "javadoc_text = ''@throws BizException''"

definition javadoc_matches :: "string set" where
  "javadoc_matches =
     {''@throws'' @ ws @ ''IllegalArgumentException'' | ws. set ws \<subseteq> {c. is_space c}}"

text \<open>
  The invariant of the loops of \<open>fix_duplicates\<close>: the new codes of the changes made
  so far are distinct, none is one of the codes known before the run, and the running
  set holds those codes and the new ones.
\<close>

definition fresh_changes :: "string fset \<Rightarrow> change list \<times> string fset \<Rightarrow> bool" where
  "fresh_changes existing_codes st \<longleftrightarrow>
     distinct (map new_code (fst st))
     \<and> (\<forall>ch \<in> set (fst st). new_code ch |\<notin>| existing_codes)
     \<and> snd st = existing_codes |\<union>| fset_of_list (map new_code (fst st))"

text \<open>
  The occurrence that a change record rewrites, the key by which \<open>fix_duplicates\<close> sorts
  the occurrences of a code, and the change records of one code.
\<close>

definition location_of :: "change \<Rightarrow> error_code_location" where
  "location_of ch =
     \<lparr>file_path = change_file ch, line_num = change_line ch, line_content = original_text ch,
      constant_name = const_name ch, is_constant_def = is_const_def ch\<rparr>"

definition sort_key_of :: "error_code_location \<Rightarrow> string \<times> nat" where
  "sort_key_of loc = (file_path loc, line_num loc)"

definition changes_of :: "string \<Rightarrow> change list \<Rightarrow> change list" where
  "changes_of code changes = filter (\<lambda>ch. old_code ch = code) changes"

text \<open>
  A concrete group of three occurrences of one code, listed out of order, and a
  project with no files.
\<close>

definition example_group :: "error_code_location list" where
  "example_group =
     [\<lparr>file_path = ''b/B.java'', line_num = 3,
       line_content = ''throw BizException.failed(202512180001L, x);'',
       constant_name = None, is_constant_def = False\<rparr>,
      \<lparr>file_path = ''a/A.java'', line_num = 9,
       line_content = ''private static final long ERROR_Y = 202512180001L;'',
       constant_name = Some ''ERROR_Y'', is_constant_def = True\<rparr>,
      \<lparr>file_path = ''a/A.java'', line_num = 7,
       line_content = ''private static final long ERROR_X = 202512180001L;'',
       constant_name = Some ''ERROR_X'', is_constant_def = True\<rparr>]"

definition empty_project :: project where
  "empty_project = \<lparr>target_dir_files = (\<lambda>_. None), project_files = [], read_lines = Map.empty\<rparr>"

text \<open>
  The occurrences that the scan of a line and of the lines of a file records, in the
  order in which it records them, each with its code; and the recording of a list of
  occurrences in an index.
\<close>

definition record_all :: "('k \<times> 'v) list \<Rightarrow> ('k \<times> 'v list) list \<Rightarrow> ('k \<times> 'v list) list" where
  "record_all occs idx = fold (\<lambda>(key, v) acc. dict_append acc key v) occs idx"

definition line_occurrences :: "string \<Rightarrow> nat \<Rightarrow> string \<Rightarrow> (string \<times> error_code_location) list" where
  "line_occurrences path n line =
     map (\<lambda>(const_name, code).
            (code, \<lparr>file_path = path, line_num = n, line_content = strip line,
                    constant_name = Some const_name, is_constant_def = True\<rparr>))
       (re_findall match_constant line)
     @ map (\<lambda>code.
            (code, \<lparr>file_path = path, line_num = n, line_content = strip line,
                    constant_name = None, is_constant_def = False\<rparr>))
         (inline_codes line)"

fun file_occurrences :: "string \<Rightarrow> nat \<Rightarrow> string list \<Rightarrow> (string \<times> error_code_location) list" where
  "file_occurrences path n [] = []"
| "file_occurrences path n (line # rest) =
     line_occurrences path n line @ file_occurrences path (n + 1) rest"

text \<open>
  A project with one file in each of two target directories; the directory listed
  first has the larger name.
\<close>

definition order_project :: project where
  "order_project =
     \<lparr>target_dir_files = (\<lambda>d.
        if d = ''user-features/src/main/java'' then Some [''user-features/src/main/java/U.java'']
        else if d = ''common-shared/src/main/java'' then Some [''common-shared/src/main/java/C.java'']
        else None),
      project_files = [],
      read_lines =
        [''user-features/src/main/java/U.java'' \<mapsto>
           [''private static final long ERROR_U = 202511250001L;'' @ [CHR 0x0A],
            ''throw BizException.failed(202511250001L, u);'' @ [CHR 0x0A]],
         ''common-shared/src/main/java/C.java'' \<mapsto>
           [''private static final long ERROR_C = 202511250001L;'' @ [CHR 0x0A]]]\<rparr>"

text \<open>The occurrence that the scan records for an inline literal of a line.\<close>

definition inline_location :: "string \<Rightarrow> nat \<Rightarrow> string \<Rightarrow> error_code_location" where
  "inline_location path n line =
     \<lparr>file_path = path, line_num = n, line_content = strip line,
      constant_name = None, is_constant_def = False\<rparr>"

text \<open>
  Two projects of two files that declare the same constant with the same code: in the
  first the literal has no \<open>L\<close> suffix, in the second (the example of the
  specification) it has one.
\<close>

definition suffix_project :: project where
  "suffix_project =
     \<lparr>target_dir_files = (\<lambda>d.
        if d = ''cage-features/src/main/java''
        then Some [''cage-features/src/main/java/A.java'', ''cage-features/src/main/java/B.java'']
        else None),
      project_files = [],
      read_lines =
        [''cage-features/src/main/java/A.java'' \<mapsto>
           [''private static final long ERROR_X = 202511250001;'' @ [CHR 0x0A]],
         ''cage-features/src/main/java/B.java'' \<mapsto>
           [''private static final long ERROR_X = 202511250001;'' @ [CHR 0x0A]]]\<rparr>"

definition spec_example_project :: project where
  "spec_example_project =
     \<lparr>target_dir_files = (\<lambda>d.
        if d = ''cage-features/src/main/java''
        then Some [''cage-features/src/main/java/A.java'', ''cage-features/src/main/java/B.java'']
        else None),
      project_files = [],
      read_lines =
        [''cage-features/src/main/java/A.java'' \<mapsto>
           [''private static final long ERROR_X = 202511250001L;'' @ [CHR 0x0A]],
         ''cage-features/src/main/java/B.java'' \<mapsto>
           [''private static final long ERROR_X = 202511250001L;'' @ [CHR 0x0A]]]\<rparr>"

text \<open>
  A project of three files in which the code 5 is declared in the first and second
  file and the code 15 in the second and third, the second file declaring both
  constants on one line, the one with the code 15 first.
\<close>

definition collision_project :: project where
  "collision_project =
     \<lparr>target_dir_files = (\<lambda>d.
        if d = ''cage-features/src/main/java''
        then Some [''cage-features/src/main/java/A.java'', ''cage-features/src/main/java/B.java'',
                   ''cage-features/src/main/java/C.java'']
        else None),
      project_files = [],
      read_lines =
        [''cage-features/src/main/java/A.java'' \<mapsto>
           [''private static final long ERROR_B = 5L;'' @ [CHR 0x0A]],
         ''cage-features/src/main/java/B.java'' \<mapsto>
           [''private static final long ERROR_A = 15L; private static final long ERROR_B = 5L;''
              @ [CHR 0x0A]],
         ''cage-features/src/main/java/C.java'' \<mapsto>
           [''private static final long ERROR_A = 15L;'' @ [CHR 0x0A]]]\<rparr>"

text \<open>
  Executable conditions under which a text \<open>q\<close> is apart from every text of the form
  \<open>h @ t @ e\<close> with the characters of \<open>t\<close> in a class \<open>P\<close>: \<open>q\<close> clashes with \<open>h\<close> and
  \<open>e\<close> at every overlap, and cannot start inside \<open>t\<close>.
\<close>

definition overlap_free :: "string \<Rightarrow> string \<Rightarrow> string \<Rightarrow> bool" where
  "overlap_free q h e \<longleftrightarrow>
     list_all (\<lambda>k. clash (drop k q) h) [1..<length q]
     \<and> list_all (\<lambda>i. clash q (drop i h)) [0..<length h]
     \<and> list_all (\<lambda>i. clash q (drop i e)) [0..<length e]"

definition starts_outside :: "string \<Rightarrow> (char \<Rightarrow> bool) \<Rightarrow> string \<Rightarrow> bool" where
  "starts_outside q P e \<longleftrightarrow>
     (case q of
        [] \<Rightarrow> False
      | a # q' \<Rightarrow> \<not> P a \<or> (case q' of [] \<Rightarrow> False
                             | b # _ \<Rightarrow> \<not> P b \<and> (case e of [] \<Rightarrow> False | x # _ \<Rightarrow> b \<noteq> x)))"

definition is_code_char :: "char \<Rightarrow> bool" where
  "is_code_char c \<longleftrightarrow> is_digit c \<or> c = CHR 0x0A \<or> c = CHR ''-''"

text \<open>
  A text that can overlap none of the texts that the three substitutions of
  \<open>process_file\<close> match or put in their place.
\<close>

definition clear_of_substitutions :: "string \<Rightarrow> bool" where
  "clear_of_substitutions q \<longleftrightarrow>
     overlap_free q ''throw BizException.failed('' ''L,''
     \<and> starts_outside q is_code_char ''L,''
     \<and> overlap_free q ''BizException.failed('' ''L, ''
     \<and> starts_outside q is_code_char ''L, ''
     \<and> overlap_free q throw_pattern [] \<and> overlap_free q bad_request_pattern []
     \<and> overlap_free q javadoc_text []
     \<and> overlap_free q ''@throws'' ''IllegalArgumentException''
     \<and> starts_outside q is_space ''IllegalArgumentException''"


section \<open>Substitution of a literal pattern\<close>

lemma re_sub_state:
  "re_sub m repl s (c, n) =
     (sub_text m repl s c, c + int (length (re_findall m s)), n + length (re_findall m s))"
proof (induction s arbitrary: c n rule: length_induct)
  case (1 s)
  show ?case
  proof (cases s)
    case Nil
    then show ?thesis by (simp add: sub_text_def)
  next
    case (Cons x xs)
    show ?thesis
    proof (cases "m (x # xs)")
      case None
      have "length xs < length s" using Cons by simp
      with 1 have "\<And>c n. re_sub m repl xs (c, n) =
          (sub_text m repl xs c, c + int (length (re_findall m xs)), n + length (re_findall m xs))"
        by blast
      from this [of c n] this [of c 0] show ?thesis using None Cons
        by (simp add: sub_text_def [of m repl "x # xs"])
    next
      case (Some a)
      obtain g len where a: "a = (g, len)" by (cases a)
      let ?r = "drop (max 1 len) (x # xs)"
      have "length ?r < length s" using Cons by simp
      with 1 have "\<And>c n. re_sub m repl ?r (c, n) =
          (sub_text m repl ?r c, c + int (length (re_findall m ?r)), n + length (re_findall m ?r))"
        by blast
      from this [of "c + 1" "n + 1"] this [of "c + 1" "Suc 0"] show ?thesis using Some a Cons
        by (simp add: sub_text_def [of m repl "x # xs"])
    qed
  qed
qed

lemma sub_text_Nil [simp]: "sub_text m repl [] c = []"
  by (simp add: sub_text_def)

lemma sub_text_lit_match:
  assumes "p \<noteq> []"
  shows "sub_text (match_literal p) repl (p @ s) c = repl c @ sub_text (match_literal p) repl s (c + 1)"
proof -
  obtain x xs where p: "p = x # xs" using assms by (cases p) auto
  have "re_sub (match_literal p) repl (p @ s) (c, 0) =
        (case re_sub (match_literal p) repl s (c + 1, 1) of (out, st) \<Rightarrow> (repl c @ out, st))"
    by (simp add: p match_literal_def)
  then show ?thesis
    by (simp add: sub_text_def [of _ _ "p @ s"] re_sub_state [of _ _ s "c + 1" "Suc 0"])
qed

lemma sub_text_lit_copy:
  assumes "\<not> prefix p (x # xs)"
  shows "sub_text (match_literal p) repl (x # xs) c = x # sub_text (match_literal p) repl xs c"
  using assms by (simp add: sub_text_def [of _ _ "x # xs"] match_literal_def re_sub_state [of _ _ xs c 0])

lemma count_matches_Nil [simp]: "count_matches p [] = 0"
  by (simp add: count_matches_def)

lemma count_matches_match:
  assumes "p \<noteq> []"
  shows "count_matches p (p @ s) = Suc (count_matches p s)"
proof -
  obtain x xs where p: "p = x # xs" using assms by (cases p) auto
  show ?thesis by (simp add: count_matches_def p match_literal_def)
qed

lemma count_matches_copy:
  assumes "\<not> prefix p (x # xs)"
  shows "count_matches p (x # xs) = count_matches p xs"
  using assms by (simp add: count_matches_def match_literal_def)

lemma unbordered_throw: "unbordered throw_pattern"
  by code_simp

lemma unbordered_bad: "unbordered bad_request_pattern"
  by code_simp

lemma prefix_shorter:
  assumes "prefix a (b @ c)" and "length a \<le> length b"
  shows "prefix a b"
proof -
  from assms(1) have "take (length a) (b @ c) = a"
    by (metis append_eq_conv_conj prefix_def)
  with assms(2) have "take (length a) b = a" by simp
  then show ?thesis by (metis take_is_prefix)
qed

lemma prefix_overlap:
  assumes "prefix p (u @ p @ v)" and "u \<noteq> []" and "unbordered p"
  shows "prefix p u"
proof (rule ccontr)
  assume n: "\<not> prefix p u"
  have lt: "length u < length p"
    using prefix_shorter [OF assms(1)] n by (cases "length p \<le> length u") simp_all
  have "take (length p) (u @ p @ v) = p"
    using assms(1) by (metis append_eq_conv_conj prefix_def)
  then have "drop (length u) (take (length p) (u @ p @ v)) = drop (length u) p" by simp
  then have "take (length p - length u) (p @ v) = drop (length u) p"
    using lt by (simp add: drop_take)
  then have "take (length p - length u) p = drop (length u) p"
    using lt by simp
  then have "prefix (drop (length u) p) p" by (metis take_is_prefix)
  moreover have "length u \<in> set [1..<length p]" using lt assms(2) by (cases u) simp_all
  ultimately show False using assms(3) unfolding unbordered_def by blast
qed

lemma sub_text_split:
  assumes "unbordered p" and "p \<noteq> []"
  shows "sub_text (match_literal p) repl (u @ p @ v) c =
           sub_text (match_literal p) repl u c @ repl (c + int (count_matches p u))
             @ sub_text (match_literal p) repl v (c + int (count_matches p u) + 1)
         \<and> count_matches p (u @ p @ v) = count_matches p u + 1 + count_matches p v"
proof (induction u arbitrary: c rule: length_induct)
  case (1 u)
  show ?case
  proof (cases u)
    case Nil
    then show ?thesis using assms(2)
      by (simp add: sub_text_lit_match count_matches_match)
  next
    case (Cons x xs)
    show ?thesis
    proof (cases "prefix p u")
      case True
      then obtain w where w: "u = p @ w" by (auto simp: prefix_def)
      have "length w < length u" using w assms(2) by simp
      with 1 have IH: "\<And>c. sub_text (match_literal p) repl (w @ p @ v) c =
           sub_text (match_literal p) repl w c @ repl (c + int (count_matches p w))
             @ sub_text (match_literal p) repl v (c + int (count_matches p w) + 1)
         \<and> count_matches p (w @ p @ v) = count_matches p w + 1 + count_matches p v"
        by blast
      show ?thesis using IH [of "c + 1"] assms(2)
        by (simp add: w sub_text_lit_match count_matches_match ac_simps)
    next
      case False
      have np: "\<not> prefix p (u @ p @ v)"
        using prefix_overlap [OF _ _ assms(1), of u v] False Cons by auto
      have "length xs < length u" using Cons by simp
      with 1 have IH: "\<And>c. sub_text (match_literal p) repl (xs @ p @ v) c =
           sub_text (match_literal p) repl xs c @ repl (c + int (count_matches p xs))
             @ sub_text (match_literal p) repl v (c + int (count_matches p xs) + 1)
         \<and> count_matches p (xs @ p @ v) = count_matches p xs + 1 + count_matches p v"
        by blast
      from np False Cons have a: "\<not> prefix p (x # (xs @ p @ v))" "\<not> prefix p (x # xs)" by simp_all
      show ?thesis using IH [of c]
        by (simp add: Cons sub_text_lit_copy [OF a(1)] sub_text_lit_copy [OF a(2)]
            count_matches_copy [OF a(1)] count_matches_copy [OF a(2)])
    qed
  qed
qed

lemma rewrites_sym: "rewrites_to M R s out \<Longrightarrow> rewrites_to R M out s"
  by (induction rule: rewrites_to.induct) (auto intro: rewrites_to.intros)

lemma prefix_split:
  assumes "prefix q (w @ t)"
  shows "prefix q w \<or> (length w < length q \<and> prefix (drop (length w) q) t)"
proof (cases "length q \<le> length w")
  case True
  then show ?thesis using prefix_shorter [OF assms] by simp
next
  case False
  from assms obtain y where y: "w @ t = q @ y" by (auto simp: prefix_def)
  have "drop (length w) (w @ t) = drop (length w) (q @ y)" by (simp only: y)
  then have "t = drop (length w) q @ y" using False by simp
  then show ?thesis using False by (auto simp: prefix_def)
qed

lemma rewrites_prefix:
  assumes "rewrites_to M R s out" and "apart q R" and "prefix q (w @ out)"
  shows "prefix q (w @ s)"
  using assms(1,3)
proof (induction arbitrary: w rule: rewrites_to.induct)
  case rw_Nil
  then show ?case by simp
next
  case (rw_copy s out x)
  from rw_copy.prems have "prefix q ((w @ [x]) @ out)" by simp
  then have "prefix q ((w @ [x]) @ s)" by (rule rw_copy.IH)
  then show ?case by simp
next
  case (rw_repl m r s out)
  from assms(2) rw_repl.hyps(2)
  have r: "r \<noteq> []"
    and a: "\<And>k z. 0 < k \<Longrightarrow> k < length q \<Longrightarrow> \<not> prefix (drop k q) (r @ z)"
    and b: "\<And>i z. i < length r \<Longrightarrow> \<not> prefix q (drop i r @ z)"
    by (auto simp: apart_def)
  from prefix_split [OF rw_repl.prems]
  show ?case
  proof
    assume "prefix q w"
    then show ?thesis by (metis prefix_prefix)
  next
    assume c: "length w < length q \<and> prefix (drop (length w) q) (r @ out)"
    show ?thesis
    proof (cases "w = []")
      case True
      with c b [of 0 out] r show ?thesis by simp
    next
      case False
      with c a [of "length w" out] show ?thesis by simp
    qed
  qed
qed

lemma occ_skip:
  assumes "\<And>i. i < length u \<Longrightarrow> \<not> prefix q (drop i u @ z)"
  shows "occ q (u @ z) = occ q z"
  using assms
proof (induction u)
  case Nil
  then show ?case by simp
next
  case (Cons x u)
  have "\<not> prefix q (x # u @ z)" using Cons.prems [of 0] by simp
  moreover have "occ q (u @ z) = occ q z"
  proof (rule Cons.IH)
    fix i assume "i < length u"
    then show "\<not> prefix q (drop i u @ z)" using Cons.prems [of "Suc i"] by simp
  qed
  ultimately show ?case by simp
qed

lemma occ_append_ge: "occ q z \<le> occ q (u @ z)"
  by (induction u) simp_all

lemma rewrites_occ_le:
  assumes "rewrites_to M R s out" and "apart q R"
  shows "occ q out \<le> occ q s"
  using assms(1)
proof (induction rule: rewrites_to.induct)
  case rw_Nil
  then show ?case by simp
next
  case (rw_copy s out x)
  have "prefix q (x # out) \<Longrightarrow> prefix q (x # s)"
    using rewrites_prefix [OF rw_copy.hyps assms(2), of "[x]"] by simp
  with rw_copy.IH show ?case by auto
next
  case (rw_repl m r s out)
  from assms(2) rw_repl.hyps(2)
  have "\<And>i. i < length r \<Longrightarrow> \<not> prefix q (drop i r @ out)"
    by (auto simp: apart_def)
  then have "occ q (r @ out) = occ q out" by (rule occ_skip)
  also have "\<dots> \<le> occ q s" by (rule rw_repl.IH)
  also have "\<dots> \<le> occ q (m @ s)" by (rule occ_append_ge)
  finally show ?case .
qed

lemma rewrites_occ_eq:
  assumes "rewrites_to M R s out" and "apart q R" and "apart q M"
  shows "occ q out = occ q s"
  using rewrites_occ_le [OF assms(1,2)] rewrites_occ_le [OF rewrites_sym [OF assms(1)] assms(3)]
  by simp




lemma contains_occ: "q \<noteq> [] \<Longrightarrow> contains q s \<longleftrightarrow> 0 < occ q s"
  by (induction s) auto



lemma re_sub_rewrites:
  assumes m: "\<And>s g len. m s = Some (g, len) \<Longrightarrow> 0 < len \<and> len \<le> length s \<and> take len s \<in> M"
    and r: "\<And>c. repl c \<in> R"
  shows "rewrites_to M R s (sub_text m repl s c)"
proof (induction s arbitrary: c rule: length_induct)
  case (1 s)
  show ?case
  proof (cases s)
    case Nil
    then show ?thesis by (simp add: rw_Nil)
  next
    case (Cons x xs)
    show ?thesis
    proof (cases "m (x # xs)")
      case None
      have "rewrites_to M R xs (sub_text m repl xs c)" using 1 Cons by simp
      then have "rewrites_to M R (x # xs) (x # sub_text m repl xs c)" by (rule rw_copy)
      moreover have "sub_text m repl (x # xs) c = x # sub_text m repl xs c"
        using None by (simp add: sub_text_def [of _ _ "x # xs"] re_sub_state [of _ _ xs c 0])
      ultimately show ?thesis using Cons by simp
    next
      case (Some a)
      obtain g len where a: "a = (g, len)" by (cases a)
      from m [OF Some [unfolded a]]
      have len: "0 < len" "len \<le> length (x # xs)" "take len (x # xs) \<in> M" by auto
      let ?rest = "drop len (x # xs)"
      have "length ?rest < length s" using len Cons by simp
      then have "rewrites_to M R ?rest (sub_text m repl ?rest (c + 1))" using 1 by blast
      then have "rewrites_to M R (take len (x # xs) @ ?rest) (repl c @ sub_text m repl ?rest (c + 1))"
        using len(3) r by (intro rw_repl)
      moreover have "max 1 len = len" using len(1) by simp
      then have "sub_text m repl (x # xs) c = repl c @ sub_text m repl ?rest (c + 1)"
        using Some a
        by (simp add: sub_text_def [of _ _ "x # xs"] re_sub_state [of _ _ ?rest "c + 1" "Suc 0"])
      ultimately show ?thesis using Cons by simp
    qed
  qed
qed

lemma lit_sub_rewrites:
  assumes "p \<noteq> []" and "\<And>c. repl c \<in> R"
  shows "rewrites_to {p} R s (sub_text (match_literal p) repl s c)"
proof (rule re_sub_rewrites)
  fix s g len assume "match_literal p s = Some (g, len)"
  then have "prefix p s" "len = length p"
    by (auto simp: match_literal_def split: if_splits)
  then show "0 < len \<and> len \<le> length s \<and> take len s \<in> {p}"
    using assms(1) by (auto simp: prefix_def)
qed (rule assms(2))

lemma lit_sub_free:
  assumes p: "p \<noteq> []" and r: "\<And>c. repl c \<in> R" and ap: "apart p R"
  shows "occ p (sub_text (match_literal p) repl s c) = 0"
proof (induction s arbitrary: c rule: length_induct)
  case (1 s)
  show ?case
  proof (cases s)
    case Nil
    then show ?thesis by simp
  next
    case (Cons x xs)
    show ?thesis
    proof (cases "prefix p s")
      case True
      then obtain w where w: "s = p @ w" by (auto simp: prefix_def)
      have "length w < length s" using w p by simp
      then have IH: "occ p (sub_text (match_literal p) repl w (c + 1)) = 0" using 1 by blast
      from ap r [of c]
      have "\<And>i. i < length (repl c) \<Longrightarrow>
          \<not> prefix p (drop i (repl c) @ sub_text (match_literal p) repl w (c + 1))"
        by (auto simp: apart_def)
      then have "occ p (repl c @ sub_text (match_literal p) repl w (c + 1)) =
                 occ p (sub_text (match_literal p) repl w (c + 1))"
        by (rule occ_skip)
      then show ?thesis using IH by (simp add: w sub_text_lit_match [OF p])
    next
      case False
      then have np: "\<not> prefix p (x # xs)" using Cons by simp
      have IH: "occ p (sub_text (match_literal p) repl xs c) = 0" using 1 Cons by simp
      have "\<not> prefix p (x # sub_text (match_literal p) repl xs c)"
      proof
        assume "prefix p (x # sub_text (match_literal p) repl xs c)"
        then have "prefix p ([x] @ sub_text (match_literal p) repl xs c)" by simp
        from rewrites_prefix [OF lit_sub_rewrites [OF p r] ap this]
        show False using np by simp
      qed
      then show ?thesis using IH by (simp add: Cons sub_text_lit_copy [OF np])
    qed
  qed
qed

lemma lit_sub_id:
  assumes "occ p s = 0"
  shows "sub_text (match_literal p) repl s c = s \<and> count_matches p s = 0"
  using assms
proof (induction s)
  case Nil
  then show ?case by simp
next
  case (Cons x xs)
  then have np: "\<not> prefix p (x # xs)" and "occ p xs = 0" by (auto split: if_splits)
  with Cons.IH show ?case
    by (simp add: sub_text_lit_copy [OF np] count_matches_copy [OF np])
qed

lemma prefix_longer:
  assumes "prefix p (a @ b)" and "length a \<le> length p"
  shows "prefix a p"
proof -
  from assms(1) obtain y where "a @ b = p @ y" by (auto simp: prefix_def)
  then have "take (length a) (a @ b) = take (length a) (p @ y)" by simp
  then have "a = take (length a) p" using assms(2) by simp
  then show ?thesis by (metis take_is_prefix)
qed

lemma count_matches_occ:
  assumes "unbordered p" and "p \<noteq> []"
  shows "count_matches p s = occ p s"
proof (induction s rule: length_induct)
  case (1 s)
  show ?case
  proof (cases s)
    case Nil
    then show ?thesis by simp
  next
    case (Cons x xs)
    show ?thesis
    proof (cases "prefix p s")
      case True
      then obtain w where w: "s = p @ w" by (auto simp: prefix_def)
      obtain y ys where py: "p = y # ys" using assms(2) by (cases p) auto
      have "length w < length s" using w assms(2) by simp
      then have IH: "count_matches p w = occ p w" using 1 by blast
      have "occ p (ys @ w) = occ p w"
      proof (rule occ_skip)
        fix i assume i: "i < length ys"
        show "\<not> prefix p (drop i ys @ w)"
        proof
          assume "prefix p (drop i ys @ w)"
          moreover have "length (drop i ys) \<le> length p" using py by simp
          ultimately have "prefix (drop i ys) p" by (rule prefix_longer)
          moreover have "drop i ys = drop (Suc i) p" using py by simp
          moreover have "Suc i \<in> set [1..<length p]" using i py by auto
          ultimately show False using assms(1) unfolding unbordered_def by metis
        qed
      qed
      then have "occ p (p @ w) = Suc (occ p w)" by (simp add: py)
      then show ?thesis using IH by (simp add: w count_matches_match [OF assms(2)])
    next
      case False
      then have np: "\<not> prefix p (x # xs)" using Cons by simp
      have "count_matches p xs = occ p xs" using 1 Cons by simp
      then show ?thesis using np by (simp add: Cons count_matches_copy [OF np])
    qed
  qed
qed


section \<open>Texts that cannot overlap\<close>

lemma clash_not_prefix: "clash a b \<Longrightarrow> \<not> prefix a (b @ z)"
  by (induction a b rule: clash.induct) auto

lemma apartI:
  assumes shape: "\<And>r. r \<in> R \<Longrightarrow> \<exists>t. r = h @ t @ e \<and> set t \<subseteq> T"
    and h: "h \<noteq> []" and q: "q \<noteq> []"
    and a: "\<forall>k \<in> set [1..<length q]. clash (drop k q) h"
    and b: "\<forall>i \<in> set [0..<length h]. clash q (drop i h)"
    and c: "hd q \<notin> T"
    and d: "\<forall>i \<in> set [0..<length e]. clash q (drop i e)"
  shows "apart q R"
  unfolding apart_def
proof (intro ballI conjI allI impI)
  fix r assume "r \<in> R"
  then obtain t where r: "r = h @ t @ e" and t: "set t \<subseteq> T" using shape by blast
  show "r \<noteq> []" using r h by simp
  {
    fix k z assume k: "0 < k \<and> k < length q"
    then have "clash (drop k q) h" using a by simp
    then have "\<not> prefix (drop k q) (h @ (t @ e @ z))" by (rule clash_not_prefix)
    then show "\<not> prefix (drop k q) (r @ z)" by (simp add: r)
  }
  {
    fix i z assume i: "i < length r"
    consider "i < length h" | "length h \<le> i" "i < length h + length t" | "length h + length t \<le> i"
      by linarith
    then show "\<not> prefix q (drop i r @ z)"
    proof cases
      case 1
      then have "clash q (drop i h)" using b by simp
      then have "\<not> prefix q (drop i h @ (t @ e @ z))" by (rule clash_not_prefix)
      then show ?thesis using 1 by (simp add: r)
    next
      case 2
      let ?j = "i - length h"
      have j: "?j < length t" using 2 by simp
      have dr: "drop i r @ z = drop ?j t @ e @ z" using 2 by (simp add: r)
      obtain y ys where y: "drop ?j t = y # ys" using j by (cases "drop ?j t") auto
      have "y \<in> set (drop ?j t)" using y by simp
      then have "y \<in> set t" by (rule in_set_dropD)
      then have "y \<in> T" using t by blast
      then have "y \<noteq> hd q" using c by auto
      then show ?thesis using q unfolding dr y by (cases q) auto
    next
      case 3
      let ?j = "i - length h - length t"
      have j: "?j < length e" using 3 i by (simp add: r)
      then have "clash q (drop ?j e)" using d by simp
      then have "\<not> prefix q (drop ?j e @ z)" by (rule clash_not_prefix)
      moreover have "drop i r = drop ?j e" using 3 by (simp add: r)
      ultimately show ?thesis by simp
    qed
  }
qed

lemma apart_single:
  assumes "r \<noteq> []" and "q \<noteq> []"
    and "\<forall>k \<in> set [1..<length q]. clash (drop k q) r"
    and "\<forall>i \<in> set [0..<length r]. clash q (drop i r)"
  shows "apart q {r}"
proof (rule apartI [where h = r and e = "[]" and T = "{}"])
  show "\<And>x. x \<in> {r} \<Longrightarrow> \<exists>t. x = r @ t @ [] \<and> set t \<subseteq> {}" by simp
qed (use assms in simp_all)

lemma dec_nat_digits: "set (dec_nat n) \<subseteq> {c. is_digit c}"
proof (induction n rule: dec_nat.induct)
  case (1 n)
  have d: "\<And>k. k < 10 \<Longrightarrow> is_digit (''0123456789'' ! k)"
  proof -
    fix k :: nat assume "k < 10"
    then have "''0123456789'' ! k \<in> set ''0123456789''" by (intro nth_mem) simp
    then show "is_digit (''0123456789'' ! k)" by (simp only: is_digit_def)
  qed
  show ?case
  proof (cases "n < 10")
    case True
    then show ?thesis using d [of n] by (subst dec_nat.simps) simp
  next
    case False
    then show ?thesis using 1 d [of "n mod 10"] by (subst dec_nat.simps) simp
  qed
qed

lemma fmt_d_chars: "set (fmt_d w n) \<subseteq> code_chars"
proof -
  have "is_digit CHR ''0''" by (simp add: is_digit_def)
  then have "\<And>k s. set s \<subseteq> {c. is_digit c} \<Longrightarrow> set (zfill k s) \<subseteq> {c. is_digit c}"
    by (auto simp: zfill_def)
  then show ?thesis using dec_nat_digits
    by (auto simp: fmt_d_def code_chars_def)
qed

lemma date_chars:
  assumes "date_format_ok d"
  shows "set d \<subseteq> code_chars"
proof -
  have "d = take 8 d @ drop 8 d" by simp
  then have "set d = set (take 8 d) \<union> set (drop 8 d)" by (metis set_append)
  moreover have "set (take 8 d) \<subseteq> {c. is_digit c}"
    using assms by (auto simp: date_format_ok_def list_all_iff)
  moreover have "set (drop 8 d) \<subseteq> {CHR 0x0A}"
    using assms by (auto simp: date_format_ok_def)
  ultimately show ?thesis by (auto simp: code_chars_def)
qed

lemma throw_shape:
  assumes "date_format_ok d" and "r \<in> throw_texts d"
  shows "\<exists>t. r = ''throw BizException.failed('' @ t @ ''L,'' \<and> set t \<subseteq> code_chars"
proof -
  from assms(2) obtain c where "r = throw_replacement d c" by (auto simp: throw_texts_def)
  then have "r = ''throw BizException.failed('' @ (d @ fmt_d 5 c) @ ''L,''"
    by (simp add: throw_replacement_def)
  moreover have "set (d @ fmt_d 5 c) \<subseteq> code_chars"
    using date_chars [OF assms(1)] fmt_d_chars by simp
  ultimately show ?thesis by blast
qed

lemma bad_shape:
  assumes "date_format_ok d" and "r \<in> bad_texts d"
  shows "\<exists>t. r = ''BizException.failed('' @ t @ ''L, '' \<and> set t \<subseteq> code_chars"
proof -
  from assms(2) obtain c where "r = bad_request_replacement d c" by (auto simp: bad_texts_def)
  then have "r = ''BizException.failed('' @ (d @ fmt_d 5 c) @ ''L, ''"
    by (simp add: bad_request_replacement_def)
  moreover have "set (d @ fmt_d 5 c) \<subseteq> code_chars"
    using date_chars [OF assms(1)] fmt_d_chars by simp
  ultimately show ?thesis by blast
qed

lemma hd_not_code_char:
  "hd throw_pattern \<notin> code_chars" "hd bad_request_pattern \<notin> code_chars"
  "hd BIZ_EXCEPTION_IMPORT \<notin> code_chars"
  by (simp_all add: throw_pattern_def bad_request_pattern_def BIZ_EXCEPTION_IMPORT_def
      code_chars_def is_digit_def)

lemma apart_throw_throw:
  assumes "date_format_ok d"
  shows "apart throw_pattern (throw_texts d)"
proof (rule apartI [where h = "''throw BizException.failed(''" and e = "''L,''" and T = code_chars])
  show "\<forall>k\<in>set [1..<length throw_pattern]. clash (drop k throw_pattern) ''throw BizException.failed(''"
    by code_simp
  show "\<forall>i\<in>set [0..<length ''throw BizException.failed('']. clash throw_pattern (drop i ''throw BizException.failed('')"
    by code_simp
  show "\<forall>i\<in>set [0..<length ''L,'']. clash throw_pattern (drop i ''L,'')"
    by code_simp
qed (use assms throw_shape hd_not_code_char in \<open>simp_all add: throw_pattern_def\<close>)

lemma apart_bad_throw:
  assumes "date_format_ok d"
  shows "apart bad_request_pattern (throw_texts d)"
proof (rule apartI [where h = "''throw BizException.failed(''" and e = "''L,''" and T = code_chars])
  show "\<forall>k\<in>set [1..<length bad_request_pattern]. clash (drop k bad_request_pattern) ''throw BizException.failed(''"
    by code_simp
  show "\<forall>i\<in>set [0..<length ''throw BizException.failed('']. clash bad_request_pattern (drop i ''throw BizException.failed('')"
    by code_simp
  show "\<forall>i\<in>set [0..<length ''L,'']. clash bad_request_pattern (drop i ''L,'')"
    by code_simp
qed (use assms throw_shape hd_not_code_char in \<open>simp_all add: bad_request_pattern_def\<close>)

lemma apart_throw_bad:
  assumes "date_format_ok d"
  shows "apart throw_pattern (bad_texts d)"
proof (rule apartI [where h = "''BizException.failed(''" and e = "''L, ''" and T = code_chars])
  show "\<forall>k\<in>set [1..<length throw_pattern]. clash (drop k throw_pattern) ''BizException.failed(''"
    by code_simp
  show "\<forall>i\<in>set [0..<length ''BizException.failed('']. clash throw_pattern (drop i ''BizException.failed('')"
    by code_simp
  show "\<forall>i\<in>set [0..<length ''L, '']. clash throw_pattern (drop i ''L, '')"
    by code_simp
qed (use assms bad_shape hd_not_code_char in \<open>simp_all add: throw_pattern_def\<close>)

lemma apart_bad_bad:
  assumes "date_format_ok d"
  shows "apart bad_request_pattern (bad_texts d)"
proof (rule apartI [where h = "''BizException.failed(''" and e = "''L, ''" and T = code_chars])
  show "\<forall>k\<in>set [1..<length bad_request_pattern]. clash (drop k bad_request_pattern) ''BizException.failed(''"
    by code_simp
  show "\<forall>i\<in>set [0..<length ''BizException.failed('']. clash bad_request_pattern (drop i ''BizException.failed('')"
    by code_simp
  show "\<forall>i\<in>set [0..<length ''L, '']. clash bad_request_pattern (drop i ''L, '')"
    by code_simp
qed (use assms bad_shape hd_not_code_char in \<open>simp_all add: bad_request_pattern_def\<close>)

lemma apart_bad_throw_pattern: "apart bad_request_pattern {throw_pattern}"
proof (rule apart_single)
  show "\<forall>k\<in>set [1..<length bad_request_pattern]. clash (drop k bad_request_pattern) throw_pattern"
    by code_simp
  show "\<forall>i\<in>set [0..<length throw_pattern]. clash bad_request_pattern (drop i throw_pattern)"
    by code_simp
qed (simp_all add: throw_pattern_def bad_request_pattern_def)

lemma counters_from_Suc: "counters_from k (Suc n) = k # counters_from (k + 1) n"
proof -
  have "[0..<Suc n] = 0 # [Suc 0..<Suc n]" by (rule upt_conv_Cons) simp
  also have "\<dots> = 0 # map Suc [0..<n]" by (simp only: map_Suc_upt)
  finally have "counters_from k (Suc n) = map (\<lambda>i. k + int i) (0 # map Suc [0..<n])"
    by (simp only: counters_from_def)
  also have "\<dots> = k # map (\<lambda>i. (k + 1) + int i) [0..<n]"
    by (simp add: comp_def ac_simps)
  finally show ?thesis by (simp only: counters_from_def)
qed

lemma counters_from_0 [simp]: "counters_from k 0 = []"
  by (simp add: counters_from_def)

declare split_on.simps(2) [simp del]

lemma split_on_nonempty: "split_on p s \<noteq> []"
  by (induction p s rule: split_on.induct) (auto simp: split_on.simps(2) split: list.splits)

lemma split_on_match:
  assumes "p \<noteq> []"
  shows "split_on p (p @ s) = [] # split_on p s"
  using assms by (cases p) (simp_all add: split_on.simps(2))

lemma split_on_copy:
  assumes "\<not> prefix p (x # xs)"
  shows "\<exists>l ls. split_on p xs = l # ls \<and> split_on p (x # xs) = (x # l) # ls"
  using assms split_on_nonempty [of p xs] by (cases "split_on p xs") (simp_all add: split_on.simps(2))

lemma sub_text_weave:
  assumes p: "p \<noteq> []"
  shows "sub_text (match_literal p) repl s k =
           weave (split_on p s) (map repl (counters_from k (count_matches p s)))
         \<and> length (split_on p s) = Suc (count_matches p s)
         \<and> weave (split_on p s) (replicate (count_matches p s) p) = s"
proof (induction s arbitrary: k rule: length_induct)
  case (1 s)
  show ?case
  proof (cases s)
    case Nil
    then show ?thesis by simp
  next
    case (Cons x xs)
    show ?thesis
    proof (cases "prefix p s")
      case True
      then obtain w where w: "s = p @ w" by (auto simp: prefix_def)
      have "length w < length s" using w p by simp
      then have IH: "sub_text (match_literal p) repl w (k + 1) =
           weave (split_on p w) (map repl (counters_from (k + 1) (count_matches p w)))
         \<and> length (split_on p w) = Suc (count_matches p w)
         \<and> weave (split_on p w) (replicate (count_matches p w) p) = w" using 1 by blast
      obtain l ls where l: "split_on p w = l # ls"
        using split_on_nonempty [of p w] by (cases "split_on p w") auto
      show ?thesis using IH
        by (simp add: w sub_text_lit_match [OF p] count_matches_match [OF p] split_on_match [OF p]
            counters_from_Suc l)
    next
      case False
      then have np: "\<not> prefix p (x # xs)" using Cons by simp
      have IH: "sub_text (match_literal p) repl xs k =
           weave (split_on p xs) (map repl (counters_from k (count_matches p xs)))
         \<and> length (split_on p xs) = Suc (count_matches p xs)
         \<and> weave (split_on p xs) (replicate (count_matches p xs) p) = xs" using 1 Cons by simp
      from split_on_copy [OF np] obtain l ls where
        l: "split_on p xs = l # ls" "split_on p (x # xs) = (x # l) # ls" by blast
      have wv: "\<And>rs. weave ((x # l) # ls) rs = x # weave (l # ls) rs"
      proof -
        fix rs show "weave ((x # l) # ls) rs = x # weave (l # ls) rs"
          by (cases ls; cases rs) simp_all
      qed
      show ?thesis using IH
        by (simp add: Cons sub_text_lit_copy [OF np] count_matches_copy [OF np] l wv)
    qed
  qed
qed

lemma apart_shape:
  assumes shape: "\<And>r. r \<in> R \<Longrightarrow> \<exists>t. r = h @ t @ e \<and> (\<forall>c \<in> set t. P c)"
    and h: "h \<noteq> []"
    and o: "overlap_free q h e"
    and s: "starts_outside q P e"
  shows "apart q R"
  unfolding apart_def
proof (intro ballI conjI allI impI)
  from o have a: "\<And>k. 0 < k \<Longrightarrow> k < length q \<Longrightarrow> clash (drop k q) h"
    and b: "\<And>i. i < length h \<Longrightarrow> clash q (drop i h)"
    and d: "\<And>i. i < length e \<Longrightarrow> clash q (drop i e)"
    by (auto simp: overlap_free_def list_all_iff)
  fix r assume "r \<in> R"
  then obtain t where r: "r = h @ t @ e" and t: "\<forall>c \<in> set t. P c" using shape by blast
  show "r \<noteq> []" using r h by simp
  {
    fix k z assume k: "0 < k \<and> k < length q"
    then have "clash (drop k q) h" using a by simp
    then have "\<not> prefix (drop k q) (h @ (t @ e @ z))" by (rule clash_not_prefix)
    then show "\<not> prefix (drop k q) (r @ z)" by (simp add: r)
  }
  {
    fix i z assume i: "i < length r"
    consider "i < length h" | "length h \<le> i" "i < length h + length t" | "length h + length t \<le> i"
      by linarith
    then show "\<not> prefix q (drop i r @ z)"
    proof cases
      case 1
      then have "clash q (drop i h)" using b by simp
      then have "\<not> prefix q (drop i h @ (t @ e @ z))" by (rule clash_not_prefix)
      then show ?thesis using 1 by (simp add: r)
    next
      case 2
      let ?j = "i - length h"
      have j: "?j < length t" using 2 by simp
      have dr: "drop i r @ z = drop ?j t @ e @ z" using 2 by (simp add: r)
      obtain y ys where y: "drop ?j t = y # ys" using j by (cases "drop ?j t") auto
      have "set (drop ?j t) \<subseteq> set t" by (rule set_drop_subset)
      then have py: "P y" and pys: "\<forall>c \<in> set ys. P c" using t y by auto
      show ?thesis
      proof
        assume p: "prefix q (drop i r @ z)"
        then have p': "prefix q (y # ys @ e @ z)" by (simp add: dr y)
        from s obtain a q' where q: "q = a # q'" by (cases q) (auto simp: starts_outside_def)
        from p' q have ay: "a = y" and p'': "prefix q' (ys @ e @ z)" by simp_all
        from s q ay py obtain b' q'' x e' where q': "q' = b' # q''" and nb: "\<not> P b'"
          and e: "e = x # e'" and bx: "b' \<noteq> x"
          by (auto simp: starts_outside_def split: list.splits)
        show False
        proof (cases ys)
          case Nil
          then show ?thesis using p'' q' e bx by simp
        next
          case (Cons y' ys')
          then have "P y'" using pys by simp
          moreover have "b' = y'" using p'' q' Cons by simp
          ultimately show ?thesis using nb by simp
        qed
      qed
    next
      case 3
      let ?j = "i - length h - length t"
      have j: "?j < length e" using 3 i by (simp add: r)
      then have "clash q (drop ?j e)" using d by simp
      then have "\<not> prefix q (drop ?j e @ z)" by (rule clash_not_prefix)
      moreover have "drop i r = drop ?j e" using 3 by (simp add: r)
      ultimately show ?thesis by simp
    qed
  }
qed

lemma starts_outside_nonempty: "starts_outside q P e \<Longrightarrow> q \<noteq> []"
  by (auto simp: starts_outside_def)

lemma apart_fixed:
  assumes "overlap_free q r []" and "q \<noteq> []" and "r \<noteq> []"
  shows "apart q {r}"
proof (rule apart_shape [where h = r and e = "[]" and P = "\<lambda>_. False"])
  show "\<And>x. x \<in> {r} \<Longrightarrow> \<exists>t. x = r @ t @ [] \<and> (\<forall>c\<in>set t. False)" by simp
  show "starts_outside q (\<lambda>_. False) []" using assms(2) by (cases q) (auto simp: starts_outside_def)
qed (use assms in simp_all)

lemma code_chars_pred: "code_chars = {c. is_code_char c}"
  by (auto simp: code_chars_def is_code_char_def)

lemma clear_apart:
  assumes d: "date_format_ok d" and c: "clear_of_substitutions q"
  shows "apart q (throw_texts d)" and "apart q {throw_pattern}"
    and "apart q (bad_texts d)" and "apart q {bad_request_pattern}"
    and "apart q {javadoc_text}" and "apart q javadoc_matches"
proof -
  have q: "q \<noteq> []" using c starts_outside_nonempty by (auto simp: clear_of_substitutions_def)
  show "apart q (throw_texts d)"
  proof (rule apart_shape [where h = "''throw BizException.failed(''" and e = "''L,''" and P = is_code_char])
    show "\<And>r. r \<in> throw_texts d \<Longrightarrow>
        \<exists>t. r = ''throw BizException.failed('' @ t @ ''L,'' \<and> (\<forall>c\<in>set t. is_code_char c)"
      using throw_shape [OF d] by (auto simp: code_chars_pred)
  qed (use c in \<open>simp_all add: clear_of_substitutions_def\<close>)
  show "apart q (bad_texts d)"
  proof (rule apart_shape [where h = "''BizException.failed(''" and e = "''L, ''" and P = is_code_char])
    show "\<And>r. r \<in> bad_texts d \<Longrightarrow>
        \<exists>t. r = ''BizException.failed('' @ t @ ''L, '' \<and> (\<forall>c\<in>set t. is_code_char c)"
      using bad_shape [OF d] by (auto simp: code_chars_pred)
  qed (use c in \<open>simp_all add: clear_of_substitutions_def\<close>)
  show "apart q javadoc_matches"
  proof (rule apart_shape [where h = "''@throws''" and e = "''IllegalArgumentException''" and P = is_space])
    show "\<And>r. r \<in> javadoc_matches \<Longrightarrow>
        \<exists>t. r = ''@throws'' @ t @ ''IllegalArgumentException'' \<and> (\<forall>c\<in>set t. is_space c)"
      by (auto simp: javadoc_matches_def)
  qed (use c in \<open>simp_all add: clear_of_substitutions_def\<close>)
  show "apart q {throw_pattern}"
    by (rule apart_fixed) (use c q in \<open>simp_all add: clear_of_substitutions_def throw_pattern_def\<close>)
  show "apart q {bad_request_pattern}"
    by (rule apart_fixed) (use c q in \<open>simp_all add: clear_of_substitutions_def bad_request_pattern_def\<close>)
  show "apart q {javadoc_text}"
    by (rule apart_fixed) (use c q in \<open>simp_all add: clear_of_substitutions_def javadoc_text_def\<close>)
qed

lemma clear_instances:
  "clear_of_substitutions BIZ_EXCEPTION_IMPORT"
  "clear_of_substitutions ''import ''"
  "clear_of_substitutions ''package ''"
  "clear_of_substitutions (CHR 0x0A # ''import '')"
  "clear_of_substitutions (CHR 0x0A # ''package '')"
  by code_simp+


section \<open>The two conversions of the rewriter\<close>

lemma convert_illegal_eq:
  "convert_illegal_argument_exception s c d =
     (sub_text (match_literal throw_pattern) (throw_replacement d) s c,
      c + int (count_matches throw_pattern s), count_matches throw_pattern s)"
  by (simp add: convert_illegal_argument_exception_def re_sub_state count_matches_def)

lemma convert_bad_eq:
  "convert_biz_exception_bad_request s c d =
     (sub_text (match_literal bad_request_pattern) (bad_request_replacement d) s c,
      c + int (count_matches bad_request_pattern s), count_matches bad_request_pattern s)"
  by (simp add: convert_biz_exception_bad_request_def re_sub_state count_matches_def)

text \<open>
  Claim C8, as amended. The patterns of the two conversions are literal texts, so only
  the exact opening tokens are matched, written with single spaces and with no white
  space before the parenthesis. Every occurrence of the exact token
  \<open>throw new IllegalArgumentException(\<close> is replaced by exactly
  \<open>throw BizException.failed(CODE,\<close>, and every occurrence of the exact token
  \<open>BizException.badRequest(\<close> by exactly \<open>BizException.failed(CODE, \<close> with a single
  space after the comma, where \<open>CODE\<close> is the date prefix, the counter at that match
  padded to five digits, and \<open>L\<close>: wherever the token stands in a text, the conversion
  of the text is the conversion of the part before it, then the replacement, then the
  conversion of the part after it with the counter advanced by one. Nothing else is
  matched: a text in which the exact token does not stand, whatever calls it holds in
  another white-space convention, comes back from the conversion unchanged, with the
  counter as it was and no substitution counted.
\<close>

theorem exact_tokens_replaced:
  "convert_illegal_argument_exception (u @ ''throw new IllegalArgumentException('' @ v) counter d =
     (case convert_illegal_argument_exception u counter d of (out_u, counter_u, n_u) \<Rightarrow>
      case convert_illegal_argument_exception v (counter_u + 1) d of (out_v, counter_v, n_v) \<Rightarrow>
        (out_u @ ''throw BizException.failed('' @ d @ fmt_d 5 counter_u @ ''L,'' @ out_v,
         counter_v, n_u + 1 + n_v))
   \<and> convert_biz_exception_bad_request (u @ ''BizException.badRequest('' @ v) counter d =
     (case convert_biz_exception_bad_request u counter d of (out_u, counter_u, n_u) \<Rightarrow>
      case convert_biz_exception_bad_request v (counter_u + 1) d of (out_v, counter_v, n_v) \<Rightarrow>
        (out_u @ ''BizException.failed('' @ d @ fmt_d 5 counter_u @ ''L, '' @ out_v,
         counter_v, n_u + 1 + n_v))
   \<and> (\<not> contains ''throw new IllegalArgumentException('' s \<longrightarrow>
        convert_illegal_argument_exception s counter d = (s, counter, 0))
   \<and> (\<not> contains ''BizException.badRequest('' s \<longrightarrow>
        convert_biz_exception_bad_request s counter d = (s, counter, 0))"
proof -
  have t: "throw_pattern \<noteq> []" and b: "bad_request_pattern \<noteq> []"
    by (simp_all add: throw_pattern_def bad_request_pattern_def)
  have 1: "u @ ''throw new IllegalArgumentException('' @ v = u @ throw_pattern @ v"
    and 2: "u @ ''BizException.badRequest('' @ v = u @ bad_request_pattern @ v"
    by (simp_all add: throw_pattern_def bad_request_pattern_def)
  have p: "convert_illegal_argument_exception (u @ ''throw new IllegalArgumentException('' @ v) counter d =
     (case convert_illegal_argument_exception u counter d of (out_u, counter_u, n_u) \<Rightarrow>
      case convert_illegal_argument_exception v (counter_u + 1) d of (out_v, counter_v, n_v) \<Rightarrow>
        (out_u @ ''throw BizException.failed('' @ d @ fmt_d 5 counter_u @ ''L,'' @ out_v,
         counter_v, n_u + 1 + n_v))
   \<and> convert_biz_exception_bad_request (u @ ''BizException.badRequest('' @ v) counter d =
     (case convert_biz_exception_bad_request u counter d of (out_u, counter_u, n_u) \<Rightarrow>
      case convert_biz_exception_bad_request v (counter_u + 1) d of (out_v, counter_v, n_v) \<Rightarrow>
        (out_u @ ''BizException.failed('' @ d @ fmt_d 5 counter_u @ ''L, '' @ out_v,
         counter_v, n_u + 1 + n_v))"
    unfolding 1 2 convert_illegal_eq convert_bad_eq
    using sub_text_split [OF unbordered_throw t, of "throw_replacement d" u v counter]
      sub_text_split [OF unbordered_bad b, of "bad_request_replacement d" u v counter]
    by (simp add: throw_replacement_def bad_request_replacement_def ac_simps)
  have nt: "\<not> contains ''throw new IllegalArgumentException('' s \<longrightarrow>
        convert_illegal_argument_exception s counter d = (s, counter, 0)"
  proof
    assume "\<not> contains ''throw new IllegalArgumentException('' s"
    then have "occ throw_pattern s = 0"
      using contains_occ [OF t, of s] by (simp add: throw_pattern_def)
    from lit_sub_id [OF this, of "throw_replacement d" counter]
    show "convert_illegal_argument_exception s counter d = (s, counter, 0)"
      by (simp add: convert_illegal_eq)
  qed
  have nb: "\<not> contains ''BizException.badRequest('' s \<longrightarrow>
        convert_biz_exception_bad_request s counter d = (s, counter, 0)"
  proof
    assume "\<not> contains ''BizException.badRequest('' s"
    then have "occ bad_request_pattern s = 0"
      using contains_occ [OF b, of s] by (simp add: bad_request_pattern_def)
    from lit_sub_id [OF this, of "bad_request_replacement d" counter]
    show "convert_biz_exception_bad_request s counter d = (s, counter, 0)"
      by (simp add: convert_bad_eq)
  qed
  from p nt nb show ?thesis by (intro conjI) (simp_all only:)
qed

text \<open>
  The theorem of claim C8 at concrete texts: one with each exact token, and one with a
  call written with two spaces and a space before the parenthesis.
\<close>

theorem exact_tokens_replaced_witness:
  "convert_illegal_argument_exception
     (''if (a) '' @ ''throw new IllegalArgumentException('' @ ''b);'') 7 ''20251218'' =
     (''if (a) throw BizException.failed(2025121800007L,b);'', 8, 1)
   \<and> convert_biz_exception_bad_request
     (''if (a) '' @ ''BizException.badRequest('' @ ''b);'') 7 ''20251218'' =
     (''if (a) BizException.failed(2025121800007L, b);'', 8, 1)
   \<and> \<not> contains ''throw new IllegalArgumentException('' ''throw  new IllegalArgumentException (x);''
   \<and> convert_illegal_argument_exception ''throw  new IllegalArgumentException (x);'' 7 ''20251218''
       = (''throw  new IllegalArgumentException (x);'', 7, 0)
   \<and> \<not> contains ''BizException.badRequest('' ''throw  new IllegalArgumentException (x);''
   \<and> convert_biz_exception_bad_request ''throw  new IllegalArgumentException (x);'' 7 ''20251218''
       = (''throw  new IllegalArgumentException (x);'', 7, 0)"
  using exact_tokens_replaced [of "''if (a) ''" "''b);''" 7 "''20251218''"
      "''throw  new IllegalArgumentException (x);''"]
  by code_simp

text \<open>
  Claim C8 as stated fails: a call written with another white-space convention (a space
  before the parenthesis, two spaces after \<open>throw\<close>) is not matched; the text comes back
  unchanged and no code is consumed.
\<close>

theorem other_white_space_not_replaced:
  "convert_illegal_argument_exception ''throw new IllegalArgumentException (x);'' 1 ''20251218'' =
     (''throw new IllegalArgumentException (x);'', 1, 0)
   \<and> convert_illegal_argument_exception ''throw  new IllegalArgumentException(x);'' 1 ''20251218'' =
     (''throw  new IllegalArgumentException(x);'', 1, 0)
   \<and> convert_biz_exception_bad_request ''BizException.badRequest (x);'' 1 ''20251218'' =
     (''BizException.badRequest (x);'', 1, 0)"
  by code_simp

lemma throw_conversion_free:
  assumes "date_format_ok d"
  shows "occ throw_pattern (sub_text (match_literal throw_pattern) (throw_replacement d) s k) = 0"
proof (rule lit_sub_free [where R = "throw_texts d"])
  show "throw_pattern \<noteq> []" by (simp add: throw_pattern_def)
  show "\<And>c. throw_replacement d c \<in> throw_texts d" by (auto simp: throw_texts_def)
  show "apart throw_pattern (throw_texts d)" by (rule apart_throw_throw [OF assms])
qed

lemma bad_conversion_free:
  assumes "date_format_ok d"
  shows "occ bad_request_pattern
           (sub_text (match_literal bad_request_pattern) (bad_request_replacement d) s k) = 0"
proof (rule lit_sub_free [where R = "bad_texts d"])
  show "bad_request_pattern \<noteq> []" by (simp add: bad_request_pattern_def)
  show "\<And>c. bad_request_replacement d c \<in> bad_texts d" by (auto simp: bad_texts_def)
  show "apart bad_request_pattern (bad_texts d)" by (rule apart_bad_bad [OF assms])
qed

lemma bad_conversion_rewrites:
  "rewrites_to {bad_request_pattern} (bad_texts d) s
     (sub_text (match_literal bad_request_pattern) (bad_request_replacement d) s k)"
  by (rule lit_sub_rewrites) (auto simp: bad_request_pattern_def bad_texts_def)

lemma throw_conversion_rewrites:
  "rewrites_to {throw_pattern} (throw_texts d) s
     (sub_text (match_literal throw_pattern) (throw_replacement d) s k)"
  by (rule lit_sub_rewrites) (auto simp: throw_pattern_def throw_texts_def)

lemma bad_conversion_keeps_throw_free:
  assumes "date_format_ok d" and "occ throw_pattern s = 0"
  shows "occ throw_pattern
           (sub_text (match_literal bad_request_pattern) (bad_request_replacement d) s k) = 0"
  using rewrites_occ_le [OF bad_conversion_rewrites apart_throw_bad [OF assms(1)], of s k] assms(2)
  by simp

lemma throw_conversion_keeps_bad_count:
  assumes "date_format_ok d"
  shows "count_matches bad_request_pattern
           (sub_text (match_literal throw_pattern) (throw_replacement d) s k)
         = count_matches bad_request_pattern s"
proof -
  have b: "bad_request_pattern \<noteq> []" by (simp add: bad_request_pattern_def)
  show ?thesis
    unfolding count_matches_occ [OF unbordered_bad b]
    by (rule rewrites_occ_eq [OF throw_conversion_rewrites apart_bad_throw [OF assms]
          apart_bad_throw_pattern])
qed

lemma conversions_free:
  assumes "date_format_ok d"
    and "convert_illegal_argument_exception content k d = (c1, k1, n1)"
    and "convert_biz_exception_bad_request c1 k1 d = (c2, k2, n2)"
  shows "occ throw_pattern c2 = 0" and "occ bad_request_pattern c2 = 0"
proof -
  from assms(2) have c1: "c1 = sub_text (match_literal throw_pattern) (throw_replacement d) content k"
    by (simp add: convert_illegal_eq)
  from assms(3) have c2: "c2 = sub_text (match_literal bad_request_pattern) (bad_request_replacement d) c1 k1"
    by (simp add: convert_bad_eq)
  have "occ throw_pattern c1 = 0" unfolding c1 by (rule throw_conversion_free [OF assms(1)])
  then show "occ throw_pattern c2 = 0"
    unfolding c2 by (rule bad_conversion_keeps_throw_free [OF assms(1)])
  show "occ bad_request_pattern c2 = 0"
    unfolding c2 by (rule bad_conversion_free [OF assms(1)])
qed

text \<open>
  Claim C5. For a date prefix that \<open>main\<close> accepts, the text that the throw conversion
  and then the bad-request conversion return contains no match of either pattern:
  applying the two conversions to it again, with any counter and any date prefix,
  makes no substitution, returns the text as it is and leaves the counter unchanged.
\<close>

theorem second_conversion_changes_nothing:
  assumes "date_format_ok d"
    and "convert_illegal_argument_exception content k d = (c1, k1, n1)"
    and "convert_biz_exception_bad_request c1 k1 d = (c2, k2, n2)"
  shows "convert_illegal_argument_exception c2 k' d' = (c2, k', 0)
       \<and> convert_biz_exception_bad_request c2 k' d' = (c2, k', 0)
       \<and> \<not> contains throw_pattern c2 \<and> \<not> contains bad_request_pattern c2"
proof -
  note f = conversions_free [OF assms]
  have t: "throw_pattern \<noteq> []" and b: "bad_request_pattern \<noteq> []"
    by (simp_all add: throw_pattern_def bad_request_pattern_def)
  show ?thesis
    using lit_sub_id [OF f(1), of "throw_replacement d'" k']
      lit_sub_id [OF f(2), of "bad_request_replacement d'" k'] f
    by (simp add: convert_illegal_eq convert_bad_eq contains_occ [OF t] contains_occ [OF b])
qed

text \<open>The theorem of claim C5 at a concrete text.\<close>

theorem second_conversion_changes_nothing_witness:
  "date_format_ok ''20251218''
   \<and> convert_illegal_argument_exception
       ''throw new IllegalArgumentException(a); BizException.badRequest(b)'' 1 ''20251218''
     = (''throw BizException.failed(2025121800001L,a); BizException.badRequest(b)'', 2, 1)
   \<and> convert_biz_exception_bad_request
       ''throw BizException.failed(2025121800001L,a); BizException.badRequest(b)'' 2 ''20251218''
     = (''throw BizException.failed(2025121800001L,a); BizException.failed(2025121800002L, b)'', 3, 1)
   \<and> convert_illegal_argument_exception
       ''throw BizException.failed(2025121800001L,a); BizException.failed(2025121800002L, b)'' 3 ''20251219''
     = (''throw BizException.failed(2025121800001L,a); BizException.failed(2025121800002L, b)'', 3, 0)
   \<and> convert_biz_exception_bad_request
       ''throw BizException.failed(2025121800001L,a); BizException.failed(2025121800002L, b)'' 3 ''20251219''
     = (''throw BizException.failed(2025121800001L,a); BizException.failed(2025121800002L, b)'', 3, 0)"
proof -
  have h1: "date_format_ok ''20251218''" by code_simp
  have h2: "convert_illegal_argument_exception
       ''throw new IllegalArgumentException(a); BizException.badRequest(b)'' 1 ''20251218''
     = (''throw BizException.failed(2025121800001L,a); BizException.badRequest(b)'', 2, 1)"
    by code_simp
  have h3: "convert_biz_exception_bad_request
       ''throw BizException.failed(2025121800001L,a); BizException.badRequest(b)'' 2 ''20251218''
     = (''throw BizException.failed(2025121800001L,a); BizException.failed(2025121800002L, b)'', 3, 1)"
    by code_simp
  from second_conversion_changes_nothing [OF h1 h2 h3, of 3 "''20251219''"] h1 h2 h3
  show ?thesis by blast
qed

text \<open>
  The statement is about the two conversions. \<open>process_file\<close> applies the Javadoc
  substitution after them, and that substitution can put a bad-request token together
  out of a text that had none, which a second run then converts.
\<close>

lemma javadoc_update_can_form_bad_request_token:
  "process_file ''@throws IllegalArgumentException.badRequest(x)'' 1 ''20251218'' False
     = (1, \<lparr>illegal_arg = 0, bad_request = 0, javadoc = 1, import_added = False, modified = True\<rparr>,
        ''@throws BizException.badRequest(x)'')
   \<and> process_file ''@throws BizException.badRequest(x)'' 1 ''20251218'' False
     = (2, \<lparr>illegal_arg = 0, bad_request = 1, javadoc = 0, import_added = False, modified = True\<rparr>,
        ''@throws BizException.failed(2025121800001L, x)'')"
  by code_simp

lemma process_file_counter:
  assumes "date_format_ok d"
  shows "fst (process_file content k d dry) =
           k + int (count_matches throw_pattern content) + int (count_matches bad_request_pattern content)"
    and "illegal_arg (fst (snd (process_file content k d dry))) = count_matches throw_pattern content"
    and "bad_request (fst (snd (process_file content k d dry))) = count_matches bad_request_pattern content"
  using throw_conversion_keeps_bad_count [OF assms, of content k]
  by (simp_all add: process_file_def convert_illegal_eq convert_bad_eq split: prod.splits)

lemma process_files_counter:
  assumes "date_format_ok d"
  shows "distinct fl \<Longrightarrow> set fl \<subseteq> dom files \<Longrightarrow>
         fst (process_files fl files k d dry) =
           Some (k + (\<Sum>f\<leftarrow>fl. int (codes_in (the (files f)))))"
proof (induction fl arbitrary: files k)
  case Nil
  then show ?case by simp
next
  case (Cons f fl)
  from Cons.prems obtain content where c: "files f = Some content" by auto
  obtain k' st content' where pf: "process_file content k d dry = (k', st, content')"
    by (cases "process_file content k d dry") auto
  have k': "k' = k + int (codes_in content)"
    using process_file_counter(1) [OF assms, of content k dry] pf by (simp add: codes_in_def)
  let ?files = "files(f \<mapsto> content')"
  have "fst (process_files fl ?files k' d dry) = Some (k' + (\<Sum>g\<leftarrow>fl. int (codes_in (the (?files g)))))"
    using Cons.prems by (intro Cons.IH) auto
  moreover have "(\<Sum>g\<leftarrow>fl. int (codes_in (the (?files g)))) = (\<Sum>g\<leftarrow>fl. int (codes_in (the (files g))))"
    using Cons.prems(1) by (intro arg_cong [where f = sum_list] map_cong) auto
  ultimately show ?case using c pf k' by simp
qed

lemma process_file_text:
  assumes d: "date_format_ok d"
  shows "(let N = count_matches throw_pattern content;
              M = count_matches bad_request_pattern content;
              content1 = weave (split_on throw_pattern content)
                           (map (throw_replacement d) (counters_from k N));
              content2 = weave (split_on bad_request_pattern content1)
                           (map (bad_request_replacement d) (counters_from (k + int N) M));
              content3 = fst (update_javadoc_throws content2);
              content4 = (if 0 < N + M then fst (add_import_if_needed content3) else content3)
          in process_file content k d dry =
               (k + int N + int M,
                \<lparr>illegal_arg = N, bad_request = M, javadoc = snd (update_javadoc_throws content2),
                 import_added = (0 < N + M \<and> snd (add_import_if_needed content3)),
                 modified = (content4 \<noteq> content)\<rparr>,
                if content4 \<noteq> content \<and> \<not> dry then content4 else content))"
proof -
  have t: "throw_pattern \<noteq> []" and b: "bad_request_pattern \<noteq> []"
    by (simp_all add: throw_pattern_def bad_request_pattern_def)
  let ?N = "count_matches throw_pattern content"
  let ?M = "count_matches bad_request_pattern content"
  let ?c1 = "weave (split_on throw_pattern content) (map (throw_replacement d) (counters_from k ?N))"
  let ?c2 = "weave (split_on bad_request_pattern ?c1)
               (map (bad_request_replacement d) (counters_from (k + int ?N) ?M))"
  have c1: "sub_text (match_literal throw_pattern) (throw_replacement d) content k = ?c1"
    using sub_text_weave [OF t, of "throw_replacement d" content k] by simp
  have M: "count_matches bad_request_pattern ?c1 = ?M"
    using throw_conversion_keeps_bad_count [OF d, of content k] by (simp only: c1)
  have 1: "convert_illegal_argument_exception content k d = (?c1, k + int ?N, ?N)"
    by (simp only: convert_illegal_eq c1)
  have 2: "convert_biz_exception_bad_request ?c1 (k + int ?N) d = (?c2, k + int ?N + int ?M, ?M)"
    using sub_text_weave [OF b, of "bad_request_replacement d" ?c1 "k + int ?N"]
    by (simp only: convert_bad_eq M)
  obtain c3 j where 3: "update_javadoc_throws ?c2 = (c3, j)"
    by (cases "update_javadoc_throws ?c2") auto
  obtain c4 a where 4: "add_import_if_needed c3 = (c4, a)"
    by (cases "add_import_if_needed c3") auto
  show ?thesis
    unfolding Let_def process_file_def 1 2 3 prod.case
    by (simp add: 4)
qed

lemma process_files_store:
  assumes d: "date_format_ok d"
  shows "distinct fl \<Longrightarrow> set fl \<subseteq> dom files \<Longrightarrow>
         fst (process_files fl files k d dry) =
           Some (k + (\<Sum>f\<leftarrow>fl. int (codes_in (the (files f)))))
         \<and> (\<forall>i < length fl.
               snd (process_files fl files k d dry) (fl ! i) =
                 Some (snd (snd (process_file (the (files (fl ! i)))
                         (k + (\<Sum>f\<leftarrow>take i fl. int (codes_in (the (files f))))) d dry))))
         \<and> (\<forall>p. p \<notin> set fl \<longrightarrow> snd (process_files fl files k d dry) p = files p)"
proof (induction fl arbitrary: files k)
  case Nil
  then show ?case by simp
next
  case (Cons f fl)
  from Cons.prems obtain content where c: "files f = Some content" by auto
  obtain k' st content' where pf: "process_file content k d dry = (k', st, content')"
    by (cases "process_file content k d dry") auto
  have k': "k' = k + int (codes_in content)"
    using process_file_counter(1) [OF d, of content k dry] pf by (simp add: codes_in_def)
  let ?files = "files(f \<mapsto> content')"
  have same: "\<And>g. g \<in> set fl \<Longrightarrow> ?files g = files g" using Cons.prems(1) by auto
  have step: "process_files (f # fl) files k d dry = process_files fl ?files k' d dry"
    using c pf by simp
  have IH: "fst (process_files fl ?files k' d dry) =
           Some (k' + (\<Sum>g\<leftarrow>fl. int (codes_in (the (?files g)))))
         \<and> (\<forall>i < length fl.
               snd (process_files fl ?files k' d dry) (fl ! i) =
                 Some (snd (snd (process_file (the (?files (fl ! i)))
                         (k' + (\<Sum>g\<leftarrow>take i fl. int (codes_in (the (?files g))))) d dry))))
         \<and> (\<forall>p. p \<notin> set fl \<longrightarrow> snd (process_files fl ?files k' d dry) p = ?files p)"
    using Cons.prems by (intro Cons.IH) auto
  have sums: "\<And>xs. set xs \<subseteq> set fl \<Longrightarrow>
      (\<Sum>g\<leftarrow>xs. int (codes_in (the (?files g)))) = (\<Sum>g\<leftarrow>xs. int (codes_in (the (files g))))"
  proof -
    fix xs assume "set xs \<subseteq> set fl"
    have "map (\<lambda>g. int (codes_in (the (?files g)))) xs = map (\<lambda>g. int (codes_in (the (files g)))) xs"
    proof (intro map_cong refl)
      fix g assume "g \<in> set xs"
      then have "g \<in> set fl" using \<open>set xs \<subseteq> set fl\<close> by blast
      from same [OF this]
      show "int (codes_in (the (?files g))) = int (codes_in (the (files g)))" by (simp only:)
    qed
    then show "(\<Sum>g\<leftarrow>xs. int (codes_in (the (?files g)))) = (\<Sum>g\<leftarrow>xs. int (codes_in (the (files g))))"
      by (simp only:)
  qed
  have A: "fst (process_files (f # fl) files k d dry) =
           Some (k + (\<Sum>g\<leftarrow>f # fl. int (codes_in (the (files g)))))"
    using IH sums [of fl] k' c by (simp only: step) simp
  have B: "\<forall>i < length (f # fl).
               snd (process_files (f # fl) files k d dry) ((f # fl) ! i) =
                 Some (snd (snd (process_file (the (files ((f # fl) ! i)))
                         (k + (\<Sum>g\<leftarrow>take i (f # fl). int (codes_in (the (files g))))) d dry)))"
  proof (intro allI impI)
    fix i assume i: "i < length (f # fl)"
    show "snd (process_files (f # fl) files k d dry) ((f # fl) ! i) =
                 Some (snd (snd (process_file (the (files ((f # fl) ! i)))
                         (k + (\<Sum>g\<leftarrow>take i (f # fl). int (codes_in (the (files g))))) d dry)))"
    proof (cases i)
      case 0
      have "f \<notin> set fl" using Cons.prems(1) by simp
      then have "snd (process_files fl ?files k' d dry) f = ?files f" using IH by blast
      then show ?thesis using 0 c pf by (simp only: step) simp
    next
      case (Suc j)
      then have j: "j < length fl" using i by simp
      have m: "fl ! j \<in> set fl" using j by simp
      have "set (take j fl) \<subseteq> set fl" by (rule set_take_subset)
      from sums [OF this]
      have s: "(\<Sum>g\<leftarrow>take j fl. int (codes_in (the (?files g))))
          = (\<Sum>g\<leftarrow>take j fl. int (codes_in (the (files g))))" .
      have "snd (process_files fl ?files k' d dry) (fl ! j) =
          Some (snd (snd (process_file (the (?files (fl ! j)))
                         (k' + (\<Sum>g\<leftarrow>take j fl. int (codes_in (the (?files g))))) d dry)))"
        using IH j by blast
      then have "snd (process_files fl ?files k' d dry) (fl ! j) =
          Some (snd (snd (process_file (the (files (fl ! j)))
                         (k + int (codes_in content) + (\<Sum>g\<leftarrow>take j fl. int (codes_in (the (files g))))) d dry)))"
        by (simp only: s same [OF m] k')
      then show ?thesis using Suc c by (simp only: step) (simp add: ac_simps)
    qed
  qed
  have C: "\<forall>p. p \<notin> set (f # fl) \<longrightarrow> snd (process_files (f # fl) files k d dry) p = files p"
  proof (intro allI impI)
    fix p assume p: "p \<notin> set (f # fl)"
    then have "snd (process_files fl ?files k' d dry) p = ?files p" using IH by simp
    then show "snd (process_files (f # fl) files k d dry) p = files p"
      using p by (simp only: step) simp
  qed
  from A B C show ?case by blast
qed

text \<open>
  Claim C4. For a date prefix that \<open>main\<close> accepts and a file text with \<open>N\<close> matches
  of the throw pattern and \<open>M\<close> matches of the bad-request pattern: the throw
  conversion cuts the text at its \<open>N\<close> matches and puts the codes of the counters
  \<open>k, ..., k + N - 1\<close> between the pieces, from top to bottom; the bad-request
  conversion then does the same with the counters \<open>k + N, ..., k + N + M - 1\<close>; and
  \<open>process_file\<close> is determined by these two steps in this order: it returns the
  counter \<open>k + N + M\<close>, the statistics \<open>N\<close> and \<open>M\<close>, and, as the text of the file,
  the text so converted (throw codes first, bad-request codes after them) with the
  javadoc tags updated and the import line added where one is due. The files found are
  sorted, and when they are distinct and readable \<open>main\<close> exits with status 0 and
  leaves, at the \<open>i\<close>-th file of the sorted list, the text that \<open>process_file\<close>
  gives for it from the counter advanced by the sum of the \<open>N + M\<close> of the files
  before it; no other file is touched.
\<close>

theorem codes_consumed_in_order:
  assumes "date_format_ok d"
  shows "(let N = count_matches throw_pattern content;
              M = count_matches bad_request_pattern content;
              content1 = weave (split_on throw_pattern content)
                           (map (throw_replacement d) (counters_from k N));
              content2 = weave (split_on bad_request_pattern content1)
                           (map (bad_request_replacement d) (counters_from (k + int N) M));
              content3 = fst (update_javadoc_throws content2);
              content4 = (if 0 < N + M then fst (add_import_if_needed content3) else content3)
          in weave (split_on throw_pattern content) (replicate N throw_pattern) = content
             \<and> convert_illegal_argument_exception content k d = (content1, k + int N, N)
             \<and> weave (split_on bad_request_pattern content1) (replicate M bad_request_pattern) = content1
             \<and> convert_biz_exception_bad_request content1 (k + int N) d = (content2, k + int N + int M, M)
             \<and> process_file content k d dry =
                 (k + int N + int M,
                  \<lparr>illegal_arg = N, bad_request = M, javadoc = snd (update_javadoc_throws content2),
                   import_added = (0 < N + M \<and> snd (add_import_if_needed content3)),
                   modified = (content4 \<noteq> content)\<rparr>,
                  if content4 \<noteq> content \<and> \<not> dry then content4 else content))
         \<and> (let fl = find_java_files dirs rglob
             in sorted fl
                \<and> (distinct fl \<and> set fl \<subseteq> dom files \<longrightarrow>
                     fst (rewriter_main d dry dirs k rglob files) = Exit 0
                     \<and> (\<forall>i < length fl.
                           snd (rewriter_main d dry dirs k rglob files) (fl ! i) =
                             Some (snd (snd (process_file (the (files (fl ! i)))
                                     (k + (\<Sum>f\<leftarrow>take i fl. int (codes_in (the (files f))))) d dry))))
                     \<and> (\<forall>p. p \<notin> set fl \<longrightarrow>
                           snd (rewriter_main d dry dirs k rglob files) p = files p)))"
proof -
  have t: "throw_pattern \<noteq> []" and b: "bad_request_pattern \<noteq> []"
    by (simp_all add: throw_pattern_def bad_request_pattern_def)
  let ?N = "count_matches throw_pattern content"
  let ?M = "count_matches bad_request_pattern content"
  let ?c1 = "weave (split_on throw_pattern content) (map (throw_replacement d) (counters_from k ?N))"
  have c1: "sub_text (match_literal throw_pattern) (throw_replacement d) content k = ?c1"
    using sub_text_weave [OF t, of "throw_replacement d" content k] by simp
  have M: "count_matches bad_request_pattern ?c1 = ?M"
    using throw_conversion_keeps_bad_count [OF assms, of content k] by (simp only: c1)
  have 1: "weave (split_on throw_pattern content) (replicate ?N throw_pattern) = content"
    using sub_text_weave [OF t, of "throw_replacement d" content k] by simp
  have 2: "convert_illegal_argument_exception content k d = (?c1, k + int ?N, ?N)"
    by (simp only: convert_illegal_eq c1)
  have 3: "weave (split_on bad_request_pattern ?c1) (replicate ?M bad_request_pattern) = ?c1"
    using sub_text_weave [OF b, of "bad_request_replacement d" ?c1 k] by (simp only: M)
  have 4: "convert_biz_exception_bad_request ?c1 (k + int ?N) d =
      (weave (split_on bad_request_pattern ?c1)
         (map (bad_request_replacement d) (counters_from (k + int ?N) ?M)), k + int ?N + int ?M, ?M)"
    using sub_text_weave [OF b, of "bad_request_replacement d" ?c1 "k + int ?N"]
    by (simp only: convert_bad_eq M)
  note 5 = process_file_text [OF assms, of content k dry, unfolded Let_def]
  let ?fl = "find_java_files dirs rglob"
  have 6: "sorted ?fl" by (simp add: find_java_files_def)
  have 7: "distinct ?fl \<and> set ?fl \<subseteq> dom files \<longrightarrow>
      fst (rewriter_main d dry dirs k rglob files) = Exit 0
      \<and> (\<forall>i < length ?fl.
            snd (rewriter_main d dry dirs k rglob files) (?fl ! i) =
              Some (snd (snd (process_file (the (files (?fl ! i)))
                      (k + (\<Sum>f\<leftarrow>take i ?fl. int (codes_in (the (files f))))) d dry))))
      \<and> (\<forall>p. p \<notin> set ?fl \<longrightarrow> snd (rewriter_main d dry dirs k rglob files) p = files p)"
  proof
    assume h: "distinct ?fl \<and> set ?fl \<subseteq> dom files"
    then have h1: "distinct ?fl" and h2: "set ?fl \<subseteq> dom files" by simp_all
    note s = process_files_store [OF assms h1 h2, of k dry]
    obtain c fs where r: "process_files ?fl files k d dry = (Some c, fs)"
      using s by (cases "process_files ?fl files k d dry") auto
    have m: "rewriter_main d dry dirs k rglob files = (Exit 0, snd (process_files ?fl files k d dry))"
      using assms r by (simp add: rewriter_main_def)
    show "fst (rewriter_main d dry dirs k rglob files) = Exit 0
      \<and> (\<forall>i < length ?fl.
            snd (rewriter_main d dry dirs k rglob files) (?fl ! i) =
              Some (snd (snd (process_file (the (files (?fl ! i)))
                      (k + (\<Sum>f\<leftarrow>take i ?fl. int (codes_in (the (files f))))) d dry))))
      \<and> (\<forall>p. p \<notin> set ?fl \<longrightarrow> snd (rewriter_main d dry dirs k rglob files) p = files p)"
      using s unfolding m by simp
  qed
  show ?thesis
    unfolding Let_def by (intro conjI 1 2 3 4 5 6 7)
qed

text \<open>The theorem of claim C4 at two concrete files of one directory.\<close>

theorem codes_consumed_in_order_witness:
  "date_format_ok ''20251218''
   \<and> distinct (find_java_files [''cage-features'']
         (\<lambda>dir_name. if dir_name = ''cage-features'' then Some [''B.java'', ''A.java''] else None))
   \<and> set (find_java_files [''cage-features'']
         (\<lambda>dir_name. if dir_name = ''cage-features'' then Some [''B.java'', ''A.java''] else None))
       \<subseteq> dom [''A.java'' \<mapsto> ''package a;'' @ [CHR 0x0A]
                          @ ''throw new IllegalArgumentException(a); BizException.badRequest(b)'',
              ''B.java'' \<mapsto> ''throw new IllegalArgumentException(c);'']
   \<and> convert_illegal_argument_exception
       (''package a;'' @ [CHR 0x0A]
          @ ''throw new IllegalArgumentException(a); BizException.badRequest(b)'') 1 ''20251218''
       = (''package a;'' @ [CHR 0x0A]
            @ ''throw BizException.failed(2025121800001L,a); BizException.badRequest(b)'', 2, 1)
   \<and> convert_biz_exception_bad_request
       (''package a;'' @ [CHR 0x0A]
          @ ''throw BizException.failed(2025121800001L,a); BizException.badRequest(b)'') 2 ''20251218''
       = (''package a;'' @ [CHR 0x0A]
            @ ''throw BizException.failed(2025121800001L,a); BizException.failed(2025121800002L, b)'', 3, 1)
   \<and> process_file
       (''package a;'' @ [CHR 0x0A]
          @ ''throw new IllegalArgumentException(a); BizException.badRequest(b)'') 1 ''20251218'' False
       = (3, \<lparr>illegal_arg = 1, bad_request = 1, javadoc = 0, import_added = True, modified = True\<rparr>,
          ''package a;'' @ [CHR 0x0A] @ ''import com.alliance.casino.common.exception.BizException;''
            @ [CHR 0x0A]
            @ ''throw BizException.failed(2025121800001L,a); BizException.failed(2025121800002L, b)'')
   \<and> find_java_files [''cage-features'']
         (\<lambda>dir_name. if dir_name = ''cage-features'' then Some [''B.java'', ''A.java''] else None)
       = [''A.java'', ''B.java'']
   \<and> fst (rewriter_main ''20251218'' False [''cage-features''] 1
         (\<lambda>dir_name. if dir_name = ''cage-features'' then Some [''B.java'', ''A.java''] else None)
         [''A.java'' \<mapsto> ''package a;'' @ [CHR 0x0A]
                          @ ''throw new IllegalArgumentException(a); BizException.badRequest(b)'',
          ''B.java'' \<mapsto> ''throw new IllegalArgumentException(c);'']) = Exit 0
   \<and> snd (rewriter_main ''20251218'' False [''cage-features''] 1
         (\<lambda>dir_name. if dir_name = ''cage-features'' then Some [''B.java'', ''A.java''] else None)
         [''A.java'' \<mapsto> ''package a;'' @ [CHR 0x0A]
                          @ ''throw new IllegalArgumentException(a); BizException.badRequest(b)'',
          ''B.java'' \<mapsto> ''throw new IllegalArgumentException(c);'']) ''A.java''
       = Some (''package a;'' @ [CHR 0x0A] @ ''import com.alliance.casino.common.exception.BizException;''
            @ [CHR 0x0A]
            @ ''throw BizException.failed(2025121800001L,a); BizException.failed(2025121800002L, b)'')
   \<and> snd (rewriter_main ''20251218'' False [''cage-features''] 1
         (\<lambda>dir_name. if dir_name = ''cage-features'' then Some [''B.java'', ''A.java''] else None)
         [''A.java'' \<mapsto> ''package a;'' @ [CHR 0x0A]
                          @ ''throw new IllegalArgumentException(a); BizException.badRequest(b)'',
          ''B.java'' \<mapsto> ''throw new IllegalArgumentException(c);'']) ''B.java''
       = Some ''throw BizException.failed(2025121800003L,c);''"
proof -
  have h: "date_format_ok ''20251218''" by code_simp
  have c:
    "convert_illegal_argument_exception
       (''package a;'' @ [CHR 0x0A]
          @ ''throw new IllegalArgumentException(a); BizException.badRequest(b)'') 1 ''20251218''
       = (''package a;'' @ [CHR 0x0A]
            @ ''throw BizException.failed(2025121800001L,a); BizException.badRequest(b)'', 2, 1)"
    "convert_biz_exception_bad_request
       (''package a;'' @ [CHR 0x0A]
          @ ''throw BizException.failed(2025121800001L,a); BizException.badRequest(b)'') 2 ''20251218''
       = (''package a;'' @ [CHR 0x0A]
            @ ''throw BizException.failed(2025121800001L,a); BizException.failed(2025121800002L, b)'', 3, 1)"
    "process_file
       (''package a;'' @ [CHR 0x0A]
          @ ''throw new IllegalArgumentException(a); BizException.badRequest(b)'') 1 ''20251218'' False
       = (3, \<lparr>illegal_arg = 1, bad_request = 1, javadoc = 0, import_added = True, modified = True\<rparr>,
          ''package a;'' @ [CHR 0x0A] @ ''import com.alliance.casino.common.exception.BizException;''
            @ [CHR 0x0A]
            @ ''throw BizException.failed(2025121800001L,a); BizException.failed(2025121800002L, b)'')"
    "find_java_files [''cage-features'']
         (\<lambda>dir_name. if dir_name = ''cage-features'' then Some [''B.java'', ''A.java''] else None)
       = [''A.java'', ''B.java'']"
    "fst (rewriter_main ''20251218'' False [''cage-features''] 1
         (\<lambda>dir_name. if dir_name = ''cage-features'' then Some [''B.java'', ''A.java''] else None)
         [''A.java'' \<mapsto> ''package a;'' @ [CHR 0x0A]
                          @ ''throw new IllegalArgumentException(a); BizException.badRequest(b)'',
          ''B.java'' \<mapsto> ''throw new IllegalArgumentException(c);'']) = Exit 0"
    "snd (rewriter_main ''20251218'' False [''cage-features''] 1
         (\<lambda>dir_name. if dir_name = ''cage-features'' then Some [''B.java'', ''A.java''] else None)
         [''A.java'' \<mapsto> ''package a;'' @ [CHR 0x0A]
                          @ ''throw new IllegalArgumentException(a); BizException.badRequest(b)'',
          ''B.java'' \<mapsto> ''throw new IllegalArgumentException(c);'']) ''A.java''
       = Some (''package a;'' @ [CHR 0x0A] @ ''import com.alliance.casino.common.exception.BizException;''
            @ [CHR 0x0A]
            @ ''throw BizException.failed(2025121800001L,a); BizException.failed(2025121800002L, b)'')"
    "snd (rewriter_main ''20251218'' False [''cage-features''] 1
         (\<lambda>dir_name. if dir_name = ''cage-features'' then Some [''B.java'', ''A.java''] else None)
         [''A.java'' \<mapsto> ''package a;'' @ [CHR 0x0A]
                          @ ''throw new IllegalArgumentException(a); BizException.badRequest(b)'',
          ''B.java'' \<mapsto> ''throw new IllegalArgumentException(c);'']) ''B.java''
       = Some ''throw BizException.failed(2025121800003L,c);''"
    by code_simp+
  have s:
    "distinct (find_java_files [''cage-features'']
         (\<lambda>dir_name. if dir_name = ''cage-features'' then Some [''B.java'', ''A.java''] else None))"
    "set (find_java_files [''cage-features'']
         (\<lambda>dir_name. if dir_name = ''cage-features'' then Some [''B.java'', ''A.java''] else None))
       \<subseteq> dom [''A.java'' \<mapsto> ''package a;'' @ [CHR 0x0A]
                          @ ''throw new IllegalArgumentException(a); BizException.badRequest(b)'',
              ''B.java'' \<mapsto> ''throw new IllegalArgumentException(c);'']"
    by (simp_all add: c(4))
  note T = codes_consumed_in_order [OF h,
      of "''package a;'' @ [CHR 0x0A]
            @ ''throw new IllegalArgumentException(a); BizException.badRequest(b)''" 1 False
         "[''cage-features'']"
         "\<lambda>dir_name. if dir_name = ''cage-features'' then Some [''B.java'', ''A.java''] else None"
         "[''A.java'' \<mapsto> ''package a;'' @ [CHR 0x0A]
                          @ ''throw new IllegalArgumentException(a); BizException.badRequest(b)'',
           ''B.java'' \<mapsto> ''throw new IllegalArgumentException(c);'']"]
  show ?thesis using T h c s by blast
qed


section \<open>The import line\<close>

lemma last_import_loop_None:
  "last_import_loop lines i acc = None \<longleftrightarrow> acc = None \<and> (\<forall>l \<in> set lines. \<not> prefix ''import '' l)"
  by (induction lines i acc rule: last_import_loop.induct) auto

lemma package_loop_None:
  "package_loop all_lines lines i = None \<longleftrightarrow> (\<forall>l \<in> set lines. \<not> prefix ''package '' l)"
  by (induction all_lines lines i rule: package_loop.induct) auto

lemma add_import_added:
  "snd (add_import_if_needed content) \<longleftrightarrow>
     \<not> has_biz_exception_import content \<and> has_insertion_point content"
proof (cases "has_biz_exception_import content")
  case True
  then show ?thesis by (simp add: add_import_if_needed_def)
next
  case False
  show ?thesis
  proof (cases "last_import_loop (split_nl content) 0 None")
    case None
    then have ni: "\<forall>l \<in> set (split_nl content). \<not> prefix ''import '' l"
      by (simp add: last_import_loop_None)
    show ?thesis
    proof (cases "package_loop (split_nl content) (split_nl content) 0")
      case None
      note p = this
      then have "\<forall>l \<in> set (split_nl content). \<not> prefix ''package '' l"
        by (simp add: package_loop_None)
      with ni have "\<not> has_insertion_point content" by (auto simp: has_insertion_point_def)
      then show ?thesis using False \<open>last_import_loop (split_nl content) 0 None = None\<close> p
        by (simp add: add_import_if_needed_def)
    next
      case (Some i)
      then have "\<not> (\<forall>l \<in> set (split_nl content). \<not> prefix ''package '' l)"
        using package_loop_None [of "split_nl content" "split_nl content" 0] by simp
      then have "has_insertion_point content" by (auto simp: has_insertion_point_def)
      then show ?thesis using False None Some by (simp add: add_import_if_needed_def)
    qed
  next
    case (Some j)
    then have "\<not> (\<forall>l \<in> set (split_nl content). \<not> prefix ''import '' l)"
      using last_import_loop_None [of "split_nl content" 0 None] by simp
    then have "has_insertion_point content" by (auto simp: has_insertion_point_def)
    then show ?thesis using False Some by (simp add: add_import_if_needed_def)
  qed
qed

lemma process_file_import_added:
  "import_added (fst (snd (process_file content k d dry))) \<longleftrightarrow>
     0 < illegal_arg (fst (snd (process_file content k d dry)))
         + bad_request (fst (snd (process_file content k d dry)))
     \<and> \<not> has_biz_exception_import (converted_text content k d)
     \<and> has_insertion_point (converted_text content k d)"
proof -
  obtain c1 k1 n1 where 1: "convert_illegal_argument_exception content k d = (c1, k1, n1)"
    by (cases "convert_illegal_argument_exception content k d") auto
  obtain c2 k2 n2 where 2: "convert_biz_exception_bad_request c1 k1 d = (c2, k2, n2)"
    by (cases "convert_biz_exception_bad_request c1 k1 d") auto
  obtain c3 j where 3: "update_javadoc_throws c2 = (c3, j)"
    by (cases "update_javadoc_throws c2") auto
  have ct: "converted_text content k d = c3" by (simp add: converted_text_def 1 2 3)
  show ?thesis
  proof (cases "0 < n1 \<or> 0 < n2")
    case True
    obtain c4 a where 4: "add_import_if_needed c3 = (c4, a)"
      by (cases "add_import_if_needed c3") auto
    have "a \<longleftrightarrow> \<not> has_biz_exception_import c3 \<and> has_insertion_point c3"
      using add_import_added [of c3] 4 by simp
    then show ?thesis using True by (auto simp add: process_file_def 1 2 3 4 ct)
  next
    case False
    then show ?thesis by (simp add: process_file_def 1 2 3 ct)
  qed
qed

lemma lit_Some: "lit p s = Some r \<Longrightarrow> s = p @ r"
  by (auto simp: lit_def prefix_def split: if_splits)

lemma many1_Some: "many1 P s = Some r \<Longrightarrow> length r < length s"
proof -
  assume "many1 P s = Some r"
  then have r: "r = dropWhile P s" and t: "takeWhile P s \<noteq> []"
    by (auto simp: many1_def split: if_splits)
  have "length (takeWhile P s @ dropWhile P s) = length s" by simp
  then have "length (takeWhile P s) + length (dropWhile P s) = length s"
    by (simp only: length_append)
  moreover have "0 < length (takeWhile P s)" using t by simp
  ultimately show ?thesis unfolding r by linarith
qed

lemma match_javadoc_len:
  assumes "match_javadoc_throws s = Some (g, len)"
  shows "0 < len \<and> len \<le> length s"
proof -
  from assms obtain s1 s2 s3 where
    1: "lit ''@throws'' s = Some s1" and 2: "many1 is_space s1 = Some s2"
    and 3: "lit ''IllegalArgumentException'' s2 = Some s3" and l: "len = length s - length s3"
    by (auto simp: match_javadoc_throws_def split: option.splits)
  from lit_Some [OF 1] have "length s1 < length s" by simp
  moreover from many1_Some [OF 2] have "length s2 < length s1" .
  moreover from lit_Some [OF 3] have "length s3 < length s2" by simp
  ultimately show ?thesis using l by simp
qed

lemma update_javadoc_eq:
  "fst (update_javadoc_throws s) = sub_text match_javadoc_throws (\<lambda>_. javadoc_text) s 0"
  by (simp add: update_javadoc_throws_def javadoc_text_def re_sub_state)

lemma split_nl_nonempty: "split_nl s \<noteq> []"
  by (induction s) (auto split: list.splits)

lemma join_split_nl: "join_nl (split_nl s) = s"
proof (induction s)
  case Nil
  then show ?case by simp
next
  case (Cons c cs)
  obtain l ls where l: "split_nl cs = l # ls"
    using split_nl_nonempty [of cs] by (cases "split_nl cs") auto
  show ?case using Cons l by (cases ls) auto
qed

lemma join_nl_Cons: "ls \<noteq> [] \<Longrightarrow> join_nl (l # ls) = l @ CHR 0x0A # join_nl ls"
  by (cases ls) simp_all

lemma join_nl_append:
  "xs \<noteq> [] \<Longrightarrow> ys \<noteq> [] \<Longrightarrow> join_nl (xs @ ys) = join_nl xs @ CHR 0x0A # join_nl ys"
proof (induction xs)
  case Nil
  then show ?case by simp
next
  case (Cons x xs)
  show ?case
  proof (cases "xs = []")
    case True
    then show ?thesis using Cons.prems(2) by (simp add: join_nl_Cons)
  next
    case False
    then show ?thesis using Cons by (simp add: join_nl_Cons)
  qed
qed

lemma list_insert_join:
  assumes "lines \<noteq> []"
  shows "\<exists>pre post r. r \<in> {x @ [CHR 0x0A], CHR 0x0A # x}
           \<and> join_nl lines = pre @ post \<and> join_nl (list_insert i x lines) = pre @ r @ post"
proof -
  consider "i = 0" | "0 < i" "i < length lines" | "length lines \<le> i" by linarith
  then show ?thesis
  proof cases
    case 1
    have "join_nl (list_insert i x lines) = [] @ (x @ [CHR 0x0A]) @ join_nl lines"
      using 1 assms by (simp add: list_insert_def join_nl_Cons)
    then show ?thesis by (metis append_Nil insertI1)
  next
    case 2
    let ?a = "take i lines" and ?b = "drop i lines"
    have a: "?a \<noteq> []" and b: "?b \<noteq> []" using 2 assms by auto
    have "join_nl lines = join_nl (?a @ ?b)" by simp
    also have "\<dots> = (join_nl ?a @ [CHR 0x0A]) @ join_nl ?b"
      using join_nl_append [OF a b] by simp
    finally have 1: "join_nl lines = (join_nl ?a @ [CHR 0x0A]) @ join_nl ?b" .
    have "join_nl (list_insert i x lines) = join_nl (?a @ (x # ?b))" by (simp add: list_insert_def)
    also have "\<dots> = join_nl ?a @ CHR 0x0A # join_nl (x # ?b)"
      using a by (intro join_nl_append) simp_all
    also have "\<dots> = (join_nl ?a @ [CHR 0x0A]) @ (x @ [CHR 0x0A]) @ join_nl ?b"
      using b by (simp add: join_nl_Cons)
    finally show ?thesis using 1 by blast
  next
    case 3
    have "join_nl (list_insert i x lines) = join_nl (lines @ [x])"
      using 3 by (simp add: list_insert_def)
    also have "\<dots> = join_nl lines @ (CHR 0x0A # x) @ []"
      using assms by (simp add: join_nl_append)
    finally show ?thesis by (metis append_Nil2 insertI1 insertI2)
  qed
qed


lemma match_javadoc_take:
  assumes "match_javadoc_throws s = Some (g, len)"
  shows "take len s \<in> javadoc_matches"
proof -
  from assms obtain s1 s2 s3 where
    1: "lit ''@throws'' s = Some s1" and 2: "many1 is_space s1 = Some s2"
    and 3: "lit ''IllegalArgumentException'' s2 = Some s3" and l: "len = length s - length s3"
    by (auto simp: match_javadoc_throws_def split: option.splits)
  from 2 have s2: "s2 = dropWhile is_space s1"
    by (auto simp: many1_def split: if_splits)
  let ?ws = "takeWhile is_space s1"
  have "s1 = ?ws @ s2" by (simp add: s2)
  with lit_Some [OF 1] lit_Some [OF 3]
  have s: "s = (''@throws'' @ ?ws @ ''IllegalArgumentException'') @ s3" by simp
  have "len = length (''@throws'' @ ?ws @ ''IllegalArgumentException'')"
    unfolding l by (subst s) simp
  then have "take len s = ''@throws'' @ ?ws @ ''IllegalArgumentException''"
    by (subst s) simp
  moreover have "set ?ws \<subseteq> {c. is_space c}" by (auto dest: set_takeWhileD)
  ultimately show ?thesis unfolding javadoc_matches_def by blast
qed

lemma javadoc_rewrites_matches:
  "rewrites_to javadoc_matches {javadoc_text} s (sub_text match_javadoc_throws (\<lambda>_. javadoc_text) s c)"
proof (rule re_sub_rewrites)
  fix s g len assume m: "match_javadoc_throws s = Some (g, len)"
  from match_javadoc_len [OF m] match_javadoc_take [OF m]
  show "0 < len \<and> len \<le> length s \<and> take len s \<in> javadoc_matches" by simp
qed simp

lemma apart_import_throw_pattern: "apart BIZ_EXCEPTION_IMPORT {throw_pattern}"
proof (rule apart_single)
  show "\<forall>k\<in>set [1..<length BIZ_EXCEPTION_IMPORT]. clash (drop k BIZ_EXCEPTION_IMPORT) throw_pattern"
    by code_simp
  show "\<forall>i\<in>set [0..<length throw_pattern]. clash BIZ_EXCEPTION_IMPORT (drop i throw_pattern)"
    by code_simp
qed (simp_all add: BIZ_EXCEPTION_IMPORT_def throw_pattern_def)

lemma apart_import_bad_pattern: "apart BIZ_EXCEPTION_IMPORT {bad_request_pattern}"
proof (rule apart_single)
  show "\<forall>k\<in>set [1..<length BIZ_EXCEPTION_IMPORT]. clash (drop k BIZ_EXCEPTION_IMPORT) bad_request_pattern"
    by code_simp
  show "\<forall>i\<in>set [0..<length bad_request_pattern]. clash BIZ_EXCEPTION_IMPORT (drop i bad_request_pattern)"
    by code_simp
qed (simp_all add: BIZ_EXCEPTION_IMPORT_def bad_request_pattern_def)

lemma apart_import_javadoc_matches: "apart BIZ_EXCEPTION_IMPORT javadoc_matches"
proof (rule apartI [where h = "''@throws''" and e = "''IllegalArgumentException''"
      and T = "{c. is_space c}"])
  show "\<And>r. r \<in> javadoc_matches \<Longrightarrow>
      \<exists>t. r = ''@throws'' @ t @ ''IllegalArgumentException'' \<and> set t \<subseteq> {c. is_space c}"
    by (auto simp: javadoc_matches_def)
  show "\<forall>k\<in>set [1..<length BIZ_EXCEPTION_IMPORT]. clash (drop k BIZ_EXCEPTION_IMPORT) ''@throws''"
    by code_simp
  show "\<forall>i\<in>set [0..<length ''@throws'']. clash BIZ_EXCEPTION_IMPORT (drop i ''@throws'')"
    by code_simp
  show "\<forall>i\<in>set [0..<length ''IllegalArgumentException''].
      clash BIZ_EXCEPTION_IMPORT (drop i ''IllegalArgumentException'')"
    by code_simp
  show "hd BIZ_EXCEPTION_IMPORT \<notin> {c. is_space c}"
    by (simp add: BIZ_EXCEPTION_IMPORT_def is_space_def)
qed (simp_all add: BIZ_EXCEPTION_IMPORT_def)

lemma has_import_occ: "has_biz_exception_import s \<longleftrightarrow> 0 < occ BIZ_EXCEPTION_IMPORT s"
proof -
  have "BIZ_EXCEPTION_IMPORT \<noteq> []" by (simp add: BIZ_EXCEPTION_IMPORT_def)
  from contains_occ [OF this, of s] show ?thesis
    by (auto simp: has_biz_exception_import_def BIZ_EXCEPTION_IMPORT_def)
qed

lemma import_survives_conversion:
  "occ BIZ_EXCEPTION_IMPORT content \<le> occ BIZ_EXCEPTION_IMPORT (converted_text content k d)"
proof -
  obtain c1 k1 n1 where 1: "convert_illegal_argument_exception content k d = (c1, k1, n1)"
    by (cases "convert_illegal_argument_exception content k d") auto
  obtain c2 k2 n2 where 2: "convert_biz_exception_bad_request c1 k1 d = (c2, k2, n2)"
    by (cases "convert_biz_exception_bad_request c1 k1 d") auto
  have ct: "converted_text content k d = fst (update_javadoc_throws c2)"
    by (simp add: converted_text_def 1 2)
  from 1 have c1: "c1 = sub_text (match_literal throw_pattern) (throw_replacement d) content k"
    by (simp add: convert_illegal_eq)
  from 2 have c2: "c2 = sub_text (match_literal bad_request_pattern) (bad_request_replacement d) c1 k1"
    by (simp add: convert_bad_eq)
  have "occ BIZ_EXCEPTION_IMPORT content \<le> occ BIZ_EXCEPTION_IMPORT c1"
    unfolding c1
    by (rule rewrites_occ_le [OF rewrites_sym [OF throw_conversion_rewrites] apart_import_throw_pattern])
  also have "\<dots> \<le> occ BIZ_EXCEPTION_IMPORT c2"
    unfolding c2
    by (rule rewrites_occ_le [OF rewrites_sym [OF bad_conversion_rewrites] apart_import_bad_pattern])
  also have "\<dots> \<le> occ BIZ_EXCEPTION_IMPORT (fst (update_javadoc_throws c2))"
    unfolding update_javadoc_eq
    by (rule rewrites_occ_le [OF rewrites_sym [OF javadoc_rewrites_matches] apart_import_javadoc_matches])
  finally show ?thesis by (simp only: ct)
qed

lemma occ_middle: "q \<noteq> [] \<Longrightarrow> 0 < occ q (a @ q @ b)"
  by (induction a) (auto simp: neq_Nil_conv)

lemma added_import_present:
  assumes "snd (add_import_if_needed content)"
  shows "has_biz_exception_import (fst (add_import_if_needed content))"
proof -
  from assms obtain i where
    i: "fst (add_import_if_needed content) = join_nl (list_insert i BIZ_EXCEPTION_IMPORT (split_nl content))"
    by (auto simp: add_import_if_needed_def Let_def split: if_splits option.splits)
  have ne: "BIZ_EXCEPTION_IMPORT \<noteq> []" by (simp add: BIZ_EXCEPTION_IMPORT_def)
  from list_insert_join [OF split_nl_nonempty, of BIZ_EXCEPTION_IMPORT content i]
  obtain pre post r where r: "r \<in> {BIZ_EXCEPTION_IMPORT @ [CHR 0x0A], CHR 0x0A # BIZ_EXCEPTION_IMPORT}"
    and j: "join_nl (list_insert i BIZ_EXCEPTION_IMPORT (split_nl content)) = pre @ r @ post"
    by blast
  from r have "0 < occ BIZ_EXCEPTION_IMPORT (pre @ r @ post)"
  proof
    assume "r = BIZ_EXCEPTION_IMPORT @ [CHR 0x0A]"
    then show ?thesis using occ_middle [OF ne, of pre "CHR 0x0A # post"] by simp
  next
    assume "r \<in> {CHR 0x0A # BIZ_EXCEPTION_IMPORT}"
    then show ?thesis using occ_middle [OF ne, of "pre @ [CHR 0x0A]" post] by simp
  qed
  then show ?thesis by (simp add: has_import_occ i j)
qed

lemma present_import_not_added:
  assumes "has_biz_exception_import content"
  shows "\<not> import_added (fst (snd (process_file content k d dry)))"
proof -
  have "0 < occ BIZ_EXCEPTION_IMPORT (converted_text content k d)"
    using assms import_survives_conversion [of content k d] by (simp add: has_import_occ)
  then show ?thesis by (simp add: process_file_import_added has_import_occ)
qed

lemma added_import_written:
  assumes "import_added (fst (snd (process_file content k d False)))"
  shows "has_biz_exception_import (snd (snd (process_file content k d False)))"
proof -
  obtain c1 k1 n1 where 1: "convert_illegal_argument_exception content k d = (c1, k1, n1)"
    by (cases "convert_illegal_argument_exception content k d") auto
  obtain c2 k2 n2 where 2: "convert_biz_exception_bad_request c1 k1 d = (c2, k2, n2)"
    by (cases "convert_biz_exception_bad_request c1 k1 d") auto
  obtain c3 j where 3: "update_javadoc_throws c2 = (c3, j)"
    by (cases "update_javadoc_throws c2") auto
  obtain c4 a where 4: "add_import_if_needed c3 = (c4, a)"
    by (cases "add_import_if_needed c3") auto
  from assms have a: "a" and n: "0 < n1 \<or> 0 < n2"
    by (auto simp: process_file_def 1 2 3 4 split: if_splits)
  have "has_biz_exception_import c4"
    using added_import_present [of c3] a by (simp add: 4)
  moreover have "snd (snd (process_file content k d False)) = c4"
    using n by (auto simp: process_file_def 1 2 3 4)
  ultimately show ?thesis by simp
qed

lemma rewrites_keeps:
  assumes "rewrites_to M R s out" and "apart q M" and "apart q R"
  shows "occ q out = occ q s" and "prefix q out \<longleftrightarrow> prefix q s"
proof -
  show "occ q out = occ q s" by (rule rewrites_occ_eq [OF assms(1,3,2)])
  have "prefix q out \<Longrightarrow> prefix q s"
    using rewrites_prefix [OF assms(1,3), of "[]"] by simp
  moreover have "prefix q s \<Longrightarrow> prefix q out"
    using rewrites_prefix [OF rewrites_sym [OF assms(1)] assms(2), of "[]"] by simp
  ultimately show "prefix q out \<longleftrightarrow> prefix q s" by blast
qed

lemma converted_keeps:
  assumes d: "date_format_ok d" and c: "clear_of_substitutions q"
  shows "occ q (converted_text content k d) = occ q content"
    and "prefix q (converted_text content k d) \<longleftrightarrow> prefix q content"
proof -
  obtain c1 k1 n1 where 1: "convert_illegal_argument_exception content k d = (c1, k1, n1)"
    by (cases "convert_illegal_argument_exception content k d") auto
  obtain c2 k2 n2 where 2: "convert_biz_exception_bad_request c1 k1 d = (c2, k2, n2)"
    by (cases "convert_biz_exception_bad_request c1 k1 d") auto
  have ct: "converted_text content k d = fst (update_javadoc_throws c2)"
    by (simp add: converted_text_def 1 2)
  from 1 have c1: "c1 = sub_text (match_literal throw_pattern) (throw_replacement d) content k"
    by (simp add: convert_illegal_eq)
  from 2 have c2: "c2 = sub_text (match_literal bad_request_pattern) (bad_request_replacement d) c1 k1"
    by (simp add: convert_bad_eq)
  note a = clear_apart [OF d c]
  have s1: "occ q c1 = occ q content" "prefix q c1 \<longleftrightarrow> prefix q content"
    unfolding c1 by (rule rewrites_keeps [OF throw_conversion_rewrites a(2) a(1)])+
  have s2: "occ q c2 = occ q c1" "prefix q c2 \<longleftrightarrow> prefix q c1"
    unfolding c2 by (rule rewrites_keeps [OF bad_conversion_rewrites a(4) a(3)])+
  have s3: "occ q (fst (update_javadoc_throws c2)) = occ q c2"
    "prefix q (fst (update_javadoc_throws c2)) \<longleftrightarrow> prefix q c2"
    unfolding update_javadoc_eq by (rule rewrites_keeps [OF javadoc_rewrites_matches a(6) a(5)])+
  show "occ q (converted_text content k d) = occ q content"
    using s1(1) s2(1) s3(1) by (simp only: ct)
  show "prefix q (converted_text content k d) \<longleftrightarrow> prefix q content"
    using s1(2) s2(2) s3(2) by (simp only: ct)
qed

lemma split_nl_hd: "hd (split_nl s) = takeWhile (\<lambda>c. c \<noteq> CHR 0x0A) s"
proof (induction s)
  case Nil
  then show ?case by simp
next
  case (Cons c cs)
  then show ?case using split_nl_nonempty [of cs] by (cases "split_nl cs") auto
qed

lemma prefix_takeWhile:
  assumes "\<forall>c \<in> set q. P c"
  shows "prefix q (takeWhile P s) \<longleftrightarrow> prefix q s"
  using assms
proof (induction s arbitrary: q)
  case Nil
  then show ?case by simp
next
  case (Cons x xs)
  show ?case
  proof (cases q)
    case Nil
    then show ?thesis by simp
  next
    case (Cons a q')
    with Cons.prems have "P a" "\<forall>c \<in> set q'. P c" by simp_all
    then show ?thesis using Cons.IH [of q'] Cons by auto
  qed
qed

lemma later_line_starts:
  assumes "q \<noteq> []" and "CHR 0x0A \<notin> set q"
  shows "(\<exists>l \<in> set (tl (split_nl s)). prefix q l) \<longleftrightarrow> 0 < occ (CHR 0x0A # q) s"
proof (induction s)
  case Nil
  then show ?case by simp
next
  case (Cons c cs)
  obtain l ls where l: "split_nl cs = l # ls"
    using split_nl_nonempty [of cs] by (cases "split_nl cs") auto
  have hdl: "l = takeWhile (\<lambda>c. c \<noteq> CHR 0x0A) cs" using split_nl_hd [of cs] l by simp
  have pl: "prefix q l \<longleftrightarrow> prefix q cs"
    unfolding hdl using assms(2) by (intro prefix_takeWhile) auto
  show ?case
  proof (cases "c = CHR 0x0A")
    case True
    then show ?thesis using Cons l pl by auto
  next
    case False
    then show ?thesis using Cons l by auto
  qed
qed

lemma line_starts:
  assumes "q \<noteq> []" and "CHR 0x0A \<notin> set q"
  shows "(\<exists>l \<in> set (split_nl s). prefix q l) \<longleftrightarrow> prefix q s \<or> 0 < occ (CHR 0x0A # q) s"
proof -
  obtain l ls where l: "split_nl s = l # ls"
    using split_nl_nonempty [of s] by (cases "split_nl s") auto
  have "l = takeWhile (\<lambda>c. c \<noteq> CHR 0x0A) s" using split_nl_hd [of s] l by simp
  then have "prefix q l \<longleftrightarrow> prefix q s"
    using assms(2) prefix_takeWhile [of q "\<lambda>c. c \<noteq> CHR 0x0A" s] by auto
  moreover have "(\<exists>l \<in> set ls. prefix q l) \<longleftrightarrow> 0 < occ (CHR 0x0A # q) s"
    using later_line_starts [OF assms, of s] l by simp
  ultimately show ?thesis using l by auto
qed

lemma has_insertion_point_occ:
  "has_insertion_point s \<longleftrightarrow>
     (prefix ''import '' s \<or> 0 < occ (CHR 0x0A # ''import '') s)
     \<or> (prefix ''package '' s \<or> 0 < occ (CHR 0x0A # ''package '') s)"
proof -
  have 1: "has_insertion_point s \<longleftrightarrow>
      (\<exists>l \<in> set (split_nl s). prefix ''import '' l) \<or> (\<exists>l \<in> set (split_nl s). prefix ''package '' l)"
    unfolding has_insertion_point_def by (rule bex_disj_distrib)
  have 2: "(\<exists>l \<in> set (split_nl s). prefix ''import '' l) \<longleftrightarrow>
      prefix ''import '' s \<or> 0 < occ (CHR 0x0A # ''import '') s"
    by (rule line_starts) simp_all
  have 3: "(\<exists>l \<in> set (split_nl s). prefix ''package '' l) \<longleftrightarrow>
      prefix ''package '' s \<or> 0 < occ (CHR 0x0A # ''package '') s"
    by (rule line_starts) simp_all
  show ?thesis by (simp only: 1 2 3)
qed

lemma converted_text_same_conditions:
  assumes "date_format_ok d"
  shows "has_biz_exception_import (converted_text content k d) \<longleftrightarrow> has_biz_exception_import content"
    and "has_insertion_point (converted_text content k d) \<longleftrightarrow> has_insertion_point content"
proof -
  show "has_biz_exception_import (converted_text content k d) \<longleftrightarrow> has_biz_exception_import content"
    by (simp add: has_import_occ converted_keeps(1) [OF assms clear_instances(1)])
  show "has_insertion_point (converted_text content k d) \<longleftrightarrow> has_insertion_point content"
    unfolding has_insertion_point_occ
    by (simp only: converted_keeps(2) [OF assms clear_instances(2)]
        converted_keeps(2) [OF assms clear_instances(3)]
        converted_keeps(1) [OF assms clear_instances(4)]
        converted_keeps(1) [OF assms clear_instances(5)])
qed

subsection \<open>The place and the number of the import lines\<close>

lemma last_import_loop_eq:
  "last_import_loop lines i acc =
     (if list_ex (prefix ''import '') lines
      then Some (i + (length (dropWhile (\<lambda>line. \<not> prefix ''import '' line) (rev lines)) - 1))
      else acc)"
proof (induction lines arbitrary: i acc)
  case Nil
  then show ?case by simp
next
  case (Cons l ls)
  let ?N = "\<lambda>line. \<not> prefix ''import '' line"
  show ?case
  proof (cases "list_ex (prefix ''import '') ls")
    case True
    then obtain x where x: "x \<in> set (rev ls)" "\<not> ?N x" by (auto simp: list_ex_iff)
    then have d: "dropWhile ?N (rev ls @ [l]) = dropWhile ?N (rev ls) @ [l]"
      by (rule dropWhile_append1)
    have "dropWhile ?N (rev ls) \<noteq> []" using x by (auto simp: dropWhile_eq_Nil_conv)
    then have "0 < length (dropWhile ?N (rev ls))" by simp
    then show ?thesis using True Cons.IH [of "i + 1"] d by simp
  next
    case False
    then have e: "\<forall>x \<in> set (rev ls). ?N x" by (simp add: list_ex_iff)
    then have d: "dropWhile ?N (rev ls @ [l]) = dropWhile ?N [l]"
      by (intro dropWhile_append2) blast
    show ?thesis using False Cons.IH [of "i + 1"] d by simp
  qed
qed

lemma skip_blank_eq:
  "skip_blank lines n = n + length (takeWhile (list_all is_space) (drop n lines))"
proof (induction lines n rule: skip_blank.induct)
  case (1 lines n)
  have b: "\<And>l ls. takeWhile (list_all is_space) (l # ls) =
      (if \<forall>c \<in> set l. is_space c then l # takeWhile (list_all is_space) ls else [])"
    by (simp only: takeWhile.simps list_all_iff)
  show ?case
  proof (cases "n < length lines \<and> (\<forall>c \<in> set (lines ! n). is_space c)")
    case True
    then have d: "drop n lines = lines ! n # drop (Suc n) lines"
      by (simp add: Cons_nth_drop_Suc)
    have "skip_blank lines n = skip_blank lines (n + 1)"
      using True skip_blank.simps [of lines n] by simp
    also have "\<dots> = n + 1 + length (takeWhile (list_all is_space) (drop (n + 1) lines))"
      using 1 True by simp
    finally show ?thesis using True by (simp only: d b) simp
  next
    case False
    have "skip_blank lines n =
        (if n < length lines \<and> (\<forall>c \<in> set (lines ! n). is_space c)
         then skip_blank lines (n + 1) else n)"
      by (rule skip_blank.simps)
    then have s: "skip_blank lines n = n" by (simp only: False if_False)
    show ?thesis
    proof (cases "n < length lines")
      case True
      then have d: "drop n lines = lines ! n # drop (Suc n) lines"
        by (simp add: Cons_nth_drop_Suc)
      show ?thesis using s False True by (simp only: d b) simp
    next
      case False
      then show ?thesis using s by simp
    qed
  qed
qed

lemma package_loop_eq:
  "package_loop all_lines lines i =
     (if list_ex (prefix ''package '') lines
      then Some (skip_blank all_lines
             (i + length (takeWhile (\<lambda>line. \<not> prefix ''package '' line) lines) + 1))
      else None)"
  by (induction all_lines lines i rule: package_loop.induct) simp_all

lemma add_import_index:
  "add_import_if_needed content =
     (if has_biz_exception_import content then (content, False)
      else case insertion_index (split_nl content) of
             Some i \<Rightarrow> (join_nl (list_insert i BIZ_EXCEPTION_IMPORT (split_nl content)), True)
           | None \<Rightarrow> (content, False))"
proof -
  let ?N = "\<lambda>line. \<not> prefix ''import '' line"
  have "list_ex (prefix ''import '') (split_nl content) \<Longrightarrow>
      0 < length (dropWhile ?N (rev (split_nl content)))"
    by (simp add: list_ex_iff dropWhile_eq_Nil_conv)
  then show ?thesis
    by (simp add: add_import_if_needed_def insertion_index_def last_import_loop_eq
        package_loop_eq skip_blank_eq Let_def)
qed

lemma insertion_index_point:
  "has_insertion_point content \<longleftrightarrow> insertion_index (split_nl content) \<noteq> None"
  by (auto simp: has_insertion_point_def insertion_index_def list_ex_iff Let_def)

lemma occ_prefix_le: "occ q u \<le> occ q (u @ z)"
proof (induction u)
  case Nil
  then show ?case by simp
next
  case (Cons x u)
  have "prefix q (x # u) \<Longrightarrow> prefix q (x # u @ z)"
    using prefix_prefix [of q "x # u" z] by simp
  then show ?case using Cons.IH by auto
qed

lemma occ_snoc:
  assumes "c \<notin> set q" and "q \<noteq> []"
  shows "occ q (u @ [c]) = occ q u"
proof (induction u)
  case Nil
  have "\<not> prefix q [c]" using assms by (cases q) auto
  then show ?case by simp
next
  case (Cons x u)
  have "prefix q ((x # u) @ [c]) \<longleftrightarrow> prefix q (x # u)"
    using assms(1) prefix_snoc [of q "x # u" c] by auto
  then show ?case using Cons.IH by simp
qed

lemma occ_split:
  assumes "unbordered q" and "q \<noteq> []"
  shows "occ q (u @ q @ v) = occ q u + 1 + occ q v"
  using sub_text_split [OF assms, of "\<lambda>_. []" u v 0]
  by (simp only: count_matches_occ [OF assms])

lemma unbordered_import: "unbordered BIZ_EXCEPTION_IMPORT"
  by code_simp

lemma occ_inserted_import:
  assumes "occ BIZ_EXCEPTION_IMPORT (join_nl lines) = 0" and "lines \<noteq> []"
  shows "occ BIZ_EXCEPTION_IMPORT (join_nl (list_insert i BIZ_EXCEPTION_IMPORT lines)) = 1"
proof -
  let ?q = BIZ_EXCEPTION_IMPORT
  have q: "?q \<noteq> []" and n: "CHR 0x0A \<notin> set ?q" and h: "hd ?q \<noteq> CHR 0x0A"
    by (simp_all add: BIZ_EXCEPTION_IMPORT_def)
  from list_insert_join [OF assms(2), of ?q i]
  obtain pre post r where r: "r = ?q @ [CHR 0x0A] \<or> r = CHR 0x0A # ?q"
    and j: "join_nl lines = pre @ post"
    and w: "join_nl (list_insert i ?q lines) = pre @ r @ post" by blast
  have "occ ?q pre \<le> occ ?q (pre @ post)" by (rule occ_prefix_le)
  then have pre: "occ ?q pre = 0" using assms(1) j by simp
  have "occ ?q post \<le> occ ?q (pre @ post)" by (rule occ_append_ge)
  then have post: "occ ?q post = 0" using assms(1) j by simp
  from r show ?thesis
  proof
    assume "r = ?q @ [CHR 0x0A]"
    then have "join_nl (list_insert i ?q lines) = pre @ ?q @ (CHR 0x0A # post)" using w by simp
    then have "occ ?q (join_nl (list_insert i ?q lines)) = occ ?q pre + 1 + occ ?q (CHR 0x0A # post)"
      by (simp only: occ_split [OF unbordered_import q])
    moreover have "\<not> prefix ?q (CHR 0x0A # post)" by (simp add: BIZ_EXCEPTION_IMPORT_def)
    ultimately show ?thesis using pre post by simp
  next
    assume "r = CHR 0x0A # ?q"
    then have "join_nl (list_insert i ?q lines) = (pre @ [CHR 0x0A]) @ ?q @ post" using w by simp
    then have "occ ?q (join_nl (list_insert i ?q lines)) = occ ?q (pre @ [CHR 0x0A]) + 1 + occ ?q post"
      by (simp only: occ_split [OF unbordered_import q])
    then show ?thesis using pre post occ_snoc [OF n q, of pre] by simp
  qed
qed

lemma process_file_written:
  "snd (snd (process_file content k d dry)) =
     (if dry then content
      else if import_added (fst (snd (process_file content k d dry)))
      then join_nl (list_insert (the (insertion_index (split_nl (converted_text content k d))))
             BIZ_EXCEPTION_IMPORT (split_nl (converted_text content k d)))
      else converted_text content k d)"
proof -
  obtain c1 k1 n1 where 1: "convert_illegal_argument_exception content k d = (c1, k1, n1)"
    by (cases "convert_illegal_argument_exception content k d") auto
  obtain c2 k2 n2 where 2: "convert_biz_exception_bad_request c1 k1 d = (c2, k2, n2)"
    by (cases "convert_biz_exception_bad_request c1 k1 d") auto
  obtain c3 j where 3: "update_javadoc_throws c2 = (c3, j)"
    by (cases "update_javadoc_throws c2") auto
  have ct: "converted_text content k d = c3" by (simp add: converted_text_def 1 2 3)
  show ?thesis
  proof (cases "0 < n1 \<or> 0 < n2")
    case True
    show ?thesis
      using True
      by (auto simp add: process_file_def 1 2 3 ct add_import_index split: option.splits)
  next
    case False
    then show ?thesis by (auto simp add: process_file_def 1 2 3 ct)
  qed
qed

lemma process_file_stats_dry:
  "fst (snd (process_file content k d dry)) = fst (snd (process_file content k d False))"
  by (simp add: process_file_def split: prod.splits)

lemma process_file_import_count:
  "occ BIZ_EXCEPTION_IMPORT (snd (snd (process_file content k d False))) =
     (if import_added (fst (snd (process_file content k d False))) then 1
      else occ BIZ_EXCEPTION_IMPORT (converted_text content k d))"
proof (cases "import_added (fst (snd (process_file content k d False)))")
  case True
  let ?c = "converted_text content k d"
  from True have "\<not> has_biz_exception_import ?c"
    by (simp add: process_file_import_added)
  then have "occ BIZ_EXCEPTION_IMPORT (join_nl (split_nl ?c)) = 0"
    by (simp add: has_import_occ join_split_nl)
  from occ_inserted_import [OF this split_nl_nonempty]
  show ?thesis using True by (simp add: process_file_written)
next
  case False
  then show ?thesis by (simp add: process_file_written)
qed

text \<open>
  Claim C6, as amended. The import line is added if and only if at least one throw or
  bad-request substitution occurred in the file, the import statement is not already
  present, and the text has a line that starts with \<open>import\<close> or \<open>package\<close> and a
  space, which gives the place to insert it. The function tests the last two
  conditions on the text after the substitutions; for a date prefix that \<open>main\<close>
  accepts they hold of that text exactly when they hold of the file as read. The text
  that is written follows the flag: when the line is added, it is the text after the
  substitutions with the import statement inserted as one line at the insertion
  index, and it contains the import statement exactly once; when the line is not
  added, it is the text after the substitutions with nothing inserted, and contains
  the import statement as often as that text. In a dry run the text stays as read.
  Running the rewriter again on a written text that contains the import statement
  adds no line: the flag is false, the text written is the text after the
  substitutions, and for a date prefix that \<open>main\<close> accepts the import statement
  occurs in it as often as before.
\<close>

theorem import_added_iff:
  "(let st = fst (snd (process_file content k d dry));
        converted = converted_text content k d;
        written = snd (snd (process_file content k d False))
    in (import_added st \<longleftrightarrow>
          0 < illegal_arg st + bad_request st
          \<and> \<not> has_biz_exception_import converted \<and> has_insertion_point converted)
       \<and> (date_format_ok d \<longrightarrow>
            (import_added st \<longleftrightarrow>
               0 < illegal_arg st + bad_request st
               \<and> \<not> has_biz_exception_import content \<and> has_insertion_point content))
       \<and> (has_insertion_point converted \<longleftrightarrow> insertion_index (split_nl converted) \<noteq> None)
       \<and> written =
           (if import_added st
            then join_nl (list_insert (the (insertion_index (split_nl converted)))
                   BIZ_EXCEPTION_IMPORT (split_nl converted))
            else converted)
       \<and> occ BIZ_EXCEPTION_IMPORT written =
           (if import_added st then 1 else occ BIZ_EXCEPTION_IMPORT converted)
       \<and> snd (snd (process_file content k d dry)) = (if dry then content else written)
       \<and> (import_added st \<longrightarrow> has_biz_exception_import written)
       \<and> (has_biz_exception_import written \<longrightarrow>
            \<not> import_added (fst (snd (process_file written k' d' dry')))
            \<and> snd (snd (process_file written k' d' False)) = converted_text written k' d'
            \<and> (date_format_ok d' \<longrightarrow>
                 occ BIZ_EXCEPTION_IMPORT (converted_text written k' d')
                   = occ BIZ_EXCEPTION_IMPORT written)))"
proof -
  let ?st = "fst (snd (process_file content k d dry))"
  let ?c = "converted_text content k d"
  let ?w = "snd (snd (process_file content k d False))"
  have st: "fst (snd (process_file content k d False)) = ?st"
    by (rule process_file_stats_dry [symmetric])
  have 1: "import_added ?st \<longleftrightarrow>
      0 < illegal_arg ?st + bad_request ?st
      \<and> \<not> has_biz_exception_import ?c \<and> has_insertion_point ?c"
    by (rule process_file_import_added)
  have 2: "date_format_ok d \<longrightarrow>
      (import_added ?st \<longleftrightarrow>
      0 < illegal_arg ?st + bad_request ?st
      \<and> \<not> has_biz_exception_import content \<and> has_insertion_point content)"
  proof
    assume d: "date_format_ok d"
    show "import_added ?st \<longleftrightarrow>
      0 < illegal_arg ?st + bad_request ?st
      \<and> \<not> has_biz_exception_import content \<and> has_insertion_point content"
      using 1 by (simp only: converted_text_same_conditions [OF d])
  qed
  have 3: "has_insertion_point ?c \<longleftrightarrow> insertion_index (split_nl ?c) \<noteq> None"
    by (rule insertion_index_point)
  have 4: "?w = (if import_added ?st
            then join_nl (list_insert (the (insertion_index (split_nl ?c)))
                   BIZ_EXCEPTION_IMPORT (split_nl ?c))
            else ?c)"
    using process_file_written [of content k d False] by (simp only: st if_False)
  have 5: "occ BIZ_EXCEPTION_IMPORT ?w =
           (if import_added ?st then 1 else occ BIZ_EXCEPTION_IMPORT ?c)"
    using process_file_import_count [of content k d] by (simp only: st)
  have 6: "snd (snd (process_file content k d dry)) = (if dry then content else ?w)"
    using process_file_written [of content k d dry] 4 by (simp only:)
  have 7: "import_added ?st \<longrightarrow> has_biz_exception_import ?w"
    using 5 by (simp add: has_import_occ)
  have 8: "has_biz_exception_import ?w \<longrightarrow>
            \<not> import_added (fst (snd (process_file ?w k' d' dry')))
            \<and> snd (snd (process_file ?w k' d' False)) = converted_text ?w k' d'
            \<and> (date_format_ok d' \<longrightarrow>
                 occ BIZ_EXCEPTION_IMPORT (converted_text ?w k' d')
                   = occ BIZ_EXCEPTION_IMPORT ?w)"
  proof
    assume h: "has_biz_exception_import ?w"
    have a: "\<not> import_added (fst (snd (process_file ?w k' d' dry')))"
      by (rule present_import_not_added [OF h])
    have "\<not> import_added (fst (snd (process_file ?w k' d' False)))"
      by (rule present_import_not_added [OF h])
    then have b: "snd (snd (process_file ?w k' d' False)) = converted_text ?w k' d'"
      using process_file_written [of ?w k' d' False] by (simp only: if_False)
    have c: "date_format_ok d' \<longrightarrow>
        occ BIZ_EXCEPTION_IMPORT (converted_text ?w k' d') = occ BIZ_EXCEPTION_IMPORT ?w"
    proof
      assume d': "date_format_ok d'"
      show "occ BIZ_EXCEPTION_IMPORT (converted_text ?w k' d') = occ BIZ_EXCEPTION_IMPORT ?w"
        by (rule converted_keeps(1) [OF d' clear_instances(1)])
    qed
    from a b c
    show "\<not> import_added (fst (snd (process_file ?w k' d' dry')))
            \<and> snd (snd (process_file ?w k' d' False)) = converted_text ?w k' d'
            \<and> (date_format_ok d' \<longrightarrow>
                 occ BIZ_EXCEPTION_IMPORT (converted_text ?w k' d')
                   = occ BIZ_EXCEPTION_IMPORT ?w)"
      by (intro conjI)
  qed
  show ?thesis unfolding Let_def by (intro conjI 1 2 3 4 5 6 7 8)
qed

text \<open>
  The theorem of claim C6 at a file with a package line and one throw, run twice, and
  at a file with a package line and nothing to convert.
\<close>

theorem import_added_iff_witness:
  "date_format_ok ''20251218''
   \<and> import_added (fst (snd (process_file
       (''package a;'' @ [CHR 0x0A, CHR 0x0A] @ ''throw new IllegalArgumentException(x);'')
       1 ''20251218'' False)))
   \<and> illegal_arg (fst (snd (process_file
       (''package a;'' @ [CHR 0x0A, CHR 0x0A] @ ''throw new IllegalArgumentException(x);'')
       1 ''20251218'' False))) = 1
   \<and> \<not> has_biz_exception_import
       (''package a;'' @ [CHR 0x0A, CHR 0x0A] @ ''throw new IllegalArgumentException(x);'')
   \<and> has_insertion_point
       (''package a;'' @ [CHR 0x0A, CHR 0x0A] @ ''throw new IllegalArgumentException(x);'')
   \<and> converted_text
       (''package a;'' @ [CHR 0x0A, CHR 0x0A] @ ''throw new IllegalArgumentException(x);'')
       1 ''20251218''
     = ''package a;'' @ [CHR 0x0A, CHR 0x0A] @ ''throw BizException.failed(2025121800001L,x);''
   \<and> insertion_index (split_nl
       (''package a;'' @ [CHR 0x0A, CHR 0x0A] @ ''throw BizException.failed(2025121800001L,x);''))
     = Some 2
   \<and> snd (snd (process_file
       (''package a;'' @ [CHR 0x0A, CHR 0x0A] @ ''throw new IllegalArgumentException(x);'')
       1 ''20251218'' False))
     = ''package a;'' @ [CHR 0x0A, CHR 0x0A]
       @ ''import com.alliance.casino.common.exception.BizException;'' @ [CHR 0x0A]
       @ ''throw BizException.failed(2025121800001L,x);''
   \<and> occ BIZ_EXCEPTION_IMPORT
       (''package a;'' @ [CHR 0x0A, CHR 0x0A]
         @ ''import com.alliance.casino.common.exception.BizException;'' @ [CHR 0x0A]
         @ ''throw BizException.failed(2025121800001L,x);'') = 1
   \<and> has_biz_exception_import
       (''package a;'' @ [CHR 0x0A, CHR 0x0A]
         @ ''import com.alliance.casino.common.exception.BizException;'' @ [CHR 0x0A]
         @ ''throw BizException.failed(2025121800001L,x);'')
   \<and> \<not> import_added (fst (snd (process_file
       (''package a;'' @ [CHR 0x0A, CHR 0x0A]
         @ ''import com.alliance.casino.common.exception.BizException;'' @ [CHR 0x0A]
         @ ''throw BizException.failed(2025121800001L,x);'')
       2 ''20251218'' False)))
   \<and> snd (snd (process_file
       (''package a;'' @ [CHR 0x0A, CHR 0x0A]
         @ ''import com.alliance.casino.common.exception.BizException;'' @ [CHR 0x0A]
         @ ''throw BizException.failed(2025121800001L,x);'')
       2 ''20251218'' False))
     = ''package a;'' @ [CHR 0x0A, CHR 0x0A]
       @ ''import com.alliance.casino.common.exception.BizException;'' @ [CHR 0x0A]
       @ ''throw BizException.failed(2025121800001L,x);''
   \<and> \<not> import_added (fst (snd (process_file
       (''package a;'' @ [CHR 0x0A, CHR 0x0A] @ ''class A {}'') 1 ''20251218'' False)))
   \<and> illegal_arg (fst (snd (process_file
       (''package a;'' @ [CHR 0x0A, CHR 0x0A] @ ''class A {}'') 1 ''20251218'' False)))
       + bad_request (fst (snd (process_file
       (''package a;'' @ [CHR 0x0A, CHR 0x0A] @ ''class A {}'') 1 ''20251218'' False))) = 0
   \<and> snd (snd (process_file
       (''package a;'' @ [CHR 0x0A, CHR 0x0A] @ ''class A {}'') 1 ''20251218'' False))
     = ''package a;'' @ [CHR 0x0A, CHR 0x0A] @ ''class A {}''"
  using import_added_iff [of
      "''package a;'' @ [CHR 0x0A, CHR 0x0A] @ ''throw new IllegalArgumentException(x);''"
      1 "''20251218''" False 2 "''20251218''" False]
    import_added_iff [of
      "''package a;'' @ [CHR 0x0A, CHR 0x0A] @ ''class A {}''"
      1 "''20251218''" False 2 "''20251218''" False]
  by code_simp

text \<open>
  Claim C6 as stated fails: in a file with neither an import line nor a package line a
  throw is converted and the import statement is not present, yet no import line is
  added.
\<close>

theorem import_not_added_without_insertion_point:
  "illegal_arg (fst (snd (process_file ''throw new IllegalArgumentException(x);'' 1 ''20251218'' False))) = 1
   \<and> \<not> has_biz_exception_import ''throw new IllegalArgumentException(x);''
   \<and> \<not> import_added (fst (snd (process_file ''throw new IllegalArgumentException(x);'' 1 ''20251218'' False)))
   \<and> snd (snd (process_file ''throw new IllegalArgumentException(x);'' 1 ''20251218'' False))
       = ''throw BizException.failed(2025121800001L,x);''"
  by code_simp


section \<open>The replacement codes of the resolver\<close>

lemma generate_loop_fresh: "generate_loop existing_codes date_prefix counter |\<notin>| existing_codes"
proof (induction existing_codes date_prefix counter rule: generate_loop.induct)
  case (1 existing_codes date_prefix counter)
  show ?case
    using 1 by (subst generate_loop.simps) (simp del: fmt_d_def)
qed

lemma generate_new_code_fresh: "generate_new_code existing_codes date_prefix |\<notin>| existing_codes"
  by (simp add: generate_new_code_def generate_loop_fresh)

lemma replace_locations_fresh:
  "fresh_changes existing_codes st \<Longrightarrow>
   fresh_changes existing_codes (replace_locations today code locations st)"
proof (induction today code locations st rule: replace_locations.induct)
  case (1 today code changes all_codes)
  then show ?case by simp
next
  case (2 today code location rest changes all_codes)
  let ?new = "generate_new_code all_codes (today (length changes))"
  let ?ch = "\<lparr>change_file = file_path location, change_line = line_num location,
                old_code = code, new_code = ?new, const_name = constant_name location,
                is_const_def = is_constant_def location,
                original_text = line_content location\<rparr>"
  from "2.prems" have d: "distinct (map new_code changes)"
    and e: "\<forall>ch \<in> set changes. new_code ch |\<notin>| existing_codes"
    and a: "all_codes = existing_codes |\<union>| fset_of_list (map new_code changes)"
    by (simp_all add: fresh_changes_def)
  have f: "?new |\<notin>| all_codes" by (rule generate_new_code_fresh)
  then have f1: "?new |\<notin>| existing_codes" and f2: "?new \<notin> set (map new_code changes)"
    unfolding a by (auto simp: fset_of_list.rep_eq)
  have "fresh_changes existing_codes (changes @ [?ch], finsert ?new all_codes)"
    unfolding fresh_changes_def
  proof (intro conjI)
    show "distinct (map new_code (fst (changes @ [?ch], finsert ?new all_codes)))"
      using d f2 by simp
    show "\<forall>ch \<in> set (fst (changes @ [?ch], finsert ?new all_codes)). new_code ch |\<notin>| existing_codes"
      using e f1 by simp
    show "snd (changes @ [?ch], finsert ?new all_codes) =
            existing_codes |\<union>| fset_of_list (map new_code (fst (changes @ [?ch], finsert ?new all_codes)))"
      using a by (auto simp: fset_of_list.rep_eq)
  qed
  then show ?case using "2.IH" [of ?new] by (simp add: Let_def)
qed

lemma plan_changes_fresh:
  "fresh_changes existing_codes st \<Longrightarrow> fresh_changes existing_codes (plan_changes today duplicates st)"
proof (induction today duplicates st rule: plan_changes.induct)
  case (1 today st)
  then show ?case by simp
next
  case (2 today code locations rest st)
  then show ?case by (simp add: replace_locations_fresh)
qed

lemma fix_duplicates_changes:
  "fst (fix_duplicates today p duplicates existing_codes dry_run) =
     fst (plan_changes today duplicates ([], existing_codes))"
  by (simp add: fix_duplicates_def Let_def)

text \<open>
  Claim C2. The generator returns a code that is not in the set it is given. In
  \<open>fix_duplicates\<close> the new codes of the change records are pairwise distinct and none
  of them is a code that was known before the run; the running set \<open>all_codes\<close> ends as
  the codes known before the run together with every new code, each added as it was
  generated.
\<close>

theorem replacement_codes_fresh:
  "generate_new_code all_codes date_prefix |\<notin>| all_codes
   \<and> (let changes = fst (fix_duplicates today p duplicates existing_codes dry_run)
      in distinct (map new_code changes)
         \<and> (\<forall>ch \<in> set changes. new_code ch |\<notin>| existing_codes)
         \<and> snd (plan_changes today duplicates ([], existing_codes)) =
             existing_codes |\<union>| fset_of_list (map new_code changes))"
proof -
  have "fresh_changes existing_codes ([], existing_codes)"
    by (simp add: fresh_changes_def)
  from plan_changes_fresh [OF this, of today duplicates]
  show ?thesis
    unfolding Let_def fix_duplicates_changes fresh_changes_def
    using generate_new_code_fresh [of all_codes date_prefix]
    by simp
qed

text \<open>The theorem of claim C2 where the first two codes of the day are taken.\<close>

theorem replacement_codes_fresh_witness:
  "generate_new_code (fset_of_list [''202512180001'', ''202512180002'']) ''20251218'' = ''202512180003''
   \<and> map new_code (fst (fix_duplicates (\<lambda>_. ''20251218'') empty_project
         [(''202512180001'', example_group)]
         (fset_of_list [''202512180001'', ''202512180002'']) True))
       = [''202512180003'', ''202512180004'']
   \<and> snd (plan_changes (\<lambda>_. ''20251218'') [(''202512180001'', example_group)]
         ([], fset_of_list [''202512180001'', ''202512180002'']))
       = fset_of_list [''202512180001'', ''202512180002'', ''202512180003'', ''202512180004'']"
proof -
  have e: "generate_new_code (fset_of_list [''202512180001'', ''202512180002'']) ''20251218'' = ''202512180003''"
    "map new_code (fst (fix_duplicates (\<lambda>_. ''20251218'') empty_project
         [(''202512180001'', example_group)]
         (fset_of_list [''202512180001'', ''202512180002'']) True))
       = [''202512180003'', ''202512180004'']"
    by code_simp+
  from replacement_codes_fresh [of "fset_of_list [''202512180001'', ''202512180002'']" "''20251218''"
      "\<lambda>_. ''20251218''" empty_project "[(''202512180001'', example_group)]"
      "fset_of_list [''202512180001'', ''202512180002'']" True]
  have "snd (plan_changes (\<lambda>_. ''20251218'') [(''202512180001'', example_group)]
         ([], fset_of_list [''202512180001'', ''202512180002'']))
       = fset_of_list [''202512180001'', ''202512180002''] |\<union>| fset_of_list [''202512180003'', ''202512180004'']"
    unfolding Let_def e(2) by blast
  then show ?thesis using e by (auto simp: fset_of_list.rep_eq fset_eq_iff)
qed


section \<open>The occurrence that is kept\<close>

lemma replace_locations_appends:
  "\<exists>cs. fst (replace_locations today code locations st) = fst st @ cs
        \<and> map location_of cs = locations \<and> (\<forall>c \<in> set cs. old_code c = code)"
proof (induction today code locations st rule: replace_locations.induct)
  case (1 today code changes all_codes)
  then show ?case by simp
next
  case (2 today code location rest changes all_codes)
  let ?new = "generate_new_code all_codes (today (length changes))"
  let ?ch = "\<lparr>change_file = file_path location, change_line = line_num location,
                old_code = code, new_code = ?new, const_name = constant_name location,
                is_const_def = is_constant_def location,
                original_text = line_content location\<rparr>"
  from "2.IH" [of ?new] obtain cs where
    cs: "fst (replace_locations today code rest (changes @ [?ch], finsert ?new all_codes))
           = (changes @ [?ch]) @ cs"
      "map location_of cs = rest" "\<forall>c \<in> set cs. old_code c = code"
    by auto
  have l: "location_of ?ch = location" by (simp add: location_of_def)
  show ?case
  proof (intro exI [of _ "?ch # cs"] conjI)
    show "map location_of (?ch # cs) = location # rest" using cs(2) l by simp
    show "\<forall>c \<in> set (?ch # cs). old_code c = code" using cs(3) by simp
    show "fst (replace_locations today code (location # rest) (changes, all_codes))
        = fst (changes, all_codes) @ (?ch # cs)"
      using cs(1) by (simp add: Let_def)
  qed
qed

lemma plan_changes_other:
  "code \<notin> fst ` set duplicates \<Longrightarrow>
   changes_of code (fst (plan_changes today duplicates st)) = changes_of code (fst st)"
proof (induction today duplicates st rule: plan_changes.induct)
  case (1 today st)
  then show ?case by simp
next
  case (2 today c locations rest st)
  from replace_locations_appends [of today c "drop (Suc 0) (sorted_locations locations)" st]
  obtain cs where cs: "fst (replace_locations today c (drop (Suc 0) (sorted_locations locations)) st) = fst st @ cs"
    "\<forall>x \<in> set cs. old_code x = c" by blast
  have "c \<noteq> code" using "2.prems" by auto
  then have "changes_of code cs = []" using cs(2) by (auto simp: changes_of_def filter_empty_conv)
  then have "changes_of code (fst (replace_locations today c (drop (Suc 0) (sorted_locations locations)) st))
      = changes_of code (fst st)"
    by (simp add: cs(1) changes_of_def)
  moreover have "code \<notin> fst ` set rest" using "2.prems" by auto
  ultimately show ?case using "2.IH" by simp
qed

lemma plan_changes_group:
  assumes "distinct (map fst duplicates)" and "(code, locations) \<in> set duplicates"
  shows "map location_of (changes_of code (fst (plan_changes today duplicates st)))
         = map location_of (changes_of code (fst st)) @ drop (Suc 0) (sorted_locations locations)"
  using assms
proof (induction today duplicates st rule: plan_changes.induct)
  case (1 today st)
  then show ?case by simp
next
  case (2 today c locs rest st)
  from replace_locations_appends [of today c "drop (Suc 0) (sorted_locations locs)" st]
  obtain cs where cs: "fst (replace_locations today c (drop (Suc 0) (sorted_locations locs)) st) = fst st @ cs"
    "map location_of cs = drop (Suc 0) (sorted_locations locs)"
    "\<forall>x \<in> set cs. old_code x = c" by blast
  show ?case
  proof (cases "c = code")
    case True
    from "2.prems"(1) have "c \<notin> fst ` set rest" by simp
    with True "2.prems" have l: "locs = locations" by force
    have "changes_of code cs = cs" using cs(3) True by (simp add: changes_of_def)
    then have "map location_of (changes_of code (fst (replace_locations today c (drop (Suc 0) (sorted_locations locs)) st)))
        = map location_of (changes_of code (fst st)) @ drop (Suc 0) (sorted_locations locations)"
      using cs(1,2) l by (simp add: changes_of_def)
    moreover have "code \<notin> fst ` set rest" using \<open>c \<notin> fst ` set rest\<close> True by simp
    ultimately show ?thesis using plan_changes_other [of code rest today] by simp
  next
    case False
    then have "changes_of code cs = []" using cs(3) by (auto simp: changes_of_def filter_empty_conv)
    then have e: "changes_of code (fst (replace_locations today c (drop (Suc 0) (sorted_locations locs)) st))
        = changes_of code (fst st)"
      by (simp add: cs(1) changes_of_def)
    have "(code, locations) \<in> set rest" using "2.prems"(2) False by auto
    moreover have "distinct (map fst rest)" using "2.prems"(1) by simp
    ultimately show ?thesis using "2.IH" e by simp
  qed
qed

lemma sorted_locations_first:
  assumes "sorted_locations locations = kept # rest"
  shows "mset (kept # rest) = mset locations"
    and "\<forall>loc \<in> set locations. sort_key_of kept \<le> sort_key_of loc"
    and "hd (filter (\<lambda>loc. sort_key_of loc = sort_key_of kept) locations) = kept"
proof -
  have s: "sorted_locations locations = sort_key sort_key_of locations"
    by (simp add: sorted_locations_def sort_key_of_def [abs_def])
  show "mset (kept # rest) = mset locations"
    using assms s by (metis mset_sort)
  have "sorted (map sort_key_of (kept # rest))"
    using assms s by (metis sorted_sort_key)
  then have "\<forall>loc \<in> set (kept # rest). sort_key_of kept \<le> sort_key_of loc" by auto
  moreover have "set (kept # rest) = set locations" using assms s by (metis set_sort)
  ultimately show "\<forall>loc \<in> set locations. sort_key_of kept \<le> sort_key_of loc" by blast
  have "filter (\<lambda>loc. sort_key_of loc = sort_key_of kept) (sort_key sort_key_of locations)
      = filter (\<lambda>loc. sort_key_of loc = sort_key_of kept) locations"
    by (rule sort_key_stable)
  then have "filter (\<lambda>loc. sort_key_of loc = sort_key_of kept) locations
      = kept # filter (\<lambda>loc. sort_key_of loc = sort_key_of kept) rest"
    using assms s by simp
  then show "hd (filter (\<lambda>loc. sort_key_of loc = sort_key_of kept) locations) = kept" by simp
qed

text \<open>
  The choice of the occurrence to keep. For a duplicated code the occurrences are
  sorted by file path and line number; the first of the sorted list, which has the
  smallest pair of the group (and is the earliest in the list among those with that
  pair), gets no change record, and the change records of the code are exactly the
  remaining occurrences, in sorted order, each with a new code.
\<close>

lemma first_sorted_location_kept:
  assumes "distinct (map fst duplicates)"
    and "(code, locations) \<in> set duplicates"
    and "length locations > 1"
  shows "\<exists>kept rest.
           sorted_locations locations = kept # rest
           \<and> mset (kept # rest) = mset locations
           \<and> (\<forall>loc \<in> set locations. (file_path kept, line_num kept) \<le> (file_path loc, line_num loc))
           \<and> hd (filter (\<lambda>loc. (file_path loc, line_num loc) = (file_path kept, line_num kept))
                  locations) = kept
           \<and> map location_of
               (filter (\<lambda>ch. old_code ch = code)
                  (fst (fix_duplicates today p duplicates existing_codes dry_run))) = rest"
proof -
  have "length (sorted_locations locations) = length locations"
    by (simp add: sorted_locations_def)
  with assms(3) obtain kept rest where kr: "sorted_locations locations = kept # rest"
    by (cases "sorted_locations locations") auto
  from plan_changes_group [OF assms(1,2), of today "([], existing_codes)"]
  have "map location_of (changes_of code (fst (fix_duplicates today p duplicates existing_codes dry_run)))
      = rest"
    by (simp add: fix_duplicates_changes changes_of_def kr)
  with sorted_locations_first [OF kr] kr show ?thesis
    unfolding sort_key_of_def changes_of_def by blast
qed

text \<open>The choice at a concrete group.\<close>

lemma first_sorted_location_kept_example:
  "distinct (map fst [(''202512180001'', example_group)])
   \<and> (''202512180001'', example_group) \<in> set [(''202512180001'', example_group)]
   \<and> length example_group > 1
   \<and> sorted_locations example_group = [example_group ! 2, example_group ! 1, example_group ! 0]
   \<and> map location_of
       (filter (\<lambda>ch. old_code ch = ''202512180001'')
          (fst (fix_duplicates (\<lambda>_. ''20251218'') empty_project
             [(''202512180001'', example_group)]
             (fset_of_list [''202512180001'', ''202512180002'']) True)))
       = [example_group ! 1, example_group ! 0]"
proof -
  have h1: "distinct (map fst [(''202512180001'', example_group)])" by simp
  have h2: "(''202512180001'', example_group) \<in> set [(''202512180001'', example_group)]" by simp
  have h3: "length example_group > 1" by (simp add: example_group_def)
  have e: "sorted_locations example_group = [example_group ! 2, example_group ! 1, example_group ! 0]"
    by code_simp
  from first_sorted_location_kept [OF h1 h2 h3, of "\<lambda>_. ''20251218''" empty_project
      "fset_of_list [''202512180001'', ''202512180002'']" True]
  obtain kept rest where "sorted_locations example_group = kept # rest"
    and "map location_of
       (filter (\<lambda>ch. old_code ch = ''202512180001'')
          (fst (fix_duplicates (\<lambda>_. ''20251218'') empty_project
             [(''202512180001'', example_group)]
             (fset_of_list [''202512180001'', ''202512180002'']) True))) = rest"
    by blast
  with e have "map location_of
       (filter (\<lambda>ch. old_code ch = ''202512180001'')
          (fst (fix_duplicates (\<lambda>_. ''20251218'') empty_project
             [(''202512180001'', example_group)]
             (fset_of_list [''202512180001'', ''202512180002'']) True)))
       = [example_group ! 1, example_group ! 0]" by simp
  with h1 h2 h3 e show ?thesis by blast
qed


section \<open>The order of an occurrence list\<close>

lemma dict_get_append:
  "dict_get (dict_append idx key v) k = dict_get idx k @ (if key = k then [v] else [])"
  by (induction idx key v rule: dict_append.induct) auto

lemma dict_get_record_all:
  "dict_get (record_all occs idx) k = dict_get idx k @ map snd (filter (\<lambda>(key, v). key = k) occs)"
proof (induction occs arbitrary: idx)
  case Nil
  then show ?case by (simp add: record_all_def)
next
  case (Cons e occs)
  obtain key v where e: "e = (key, v)" by (cases e)
  have "record_all (e # occs) idx = record_all occs (dict_append idx key v)"
    by (simp add: record_all_def e)
  then show ?case using Cons [of "dict_append idx key v"] by (simp add: e dict_get_append)
qed

lemma record_all_append: "record_all (a @ b) idx = record_all b (record_all a idx)"
  by (simp add: record_all_def)

lemma scan_line_record: "scan_line path n line idx = record_all (line_occurrences path n line) idx"
  by (simp add: scan_line_def record_all_def line_occurrences_def fold_map comp_def
      case_prod_unfold)

lemma scan_lines_record:
  "scan_lines path n lines idx = record_all (file_occurrences path n lines) idx"
proof (induction lines arbitrary: n idx)
  case Nil
  then show ?case by (simp add: record_all_def)
next
  case (Cons line lines)
  then show ?case by (simp add: scan_line_record record_all_append)
qed

lemma file_occurrences_lines:
  "\<forall>e \<in> set (file_occurrences path n lines).
      file_path (snd e) = path \<and> n \<le> line_num (snd e) \<and> line_num (snd e) < n + length lines"
proof (induction lines arbitrary: n)
  case Nil
  then show ?case by simp
next
  case (Cons line lines)
  have "\<forall>e \<in> set (line_occurrences path n line). file_path (snd e) = path \<and> line_num (snd e) = n"
    by (auto simp: line_occurrences_def)
  moreover from Cons [of "n + 1"]
  have "\<forall>e \<in> set (file_occurrences path (n + 1) lines).
      file_path (snd e) = path \<and> n \<le> line_num (snd e) \<and> line_num (snd e) < n + length (line # lines)"
    by auto
  ultimately show ?case by auto
qed

lemma file_occurrences_sorted:
  "sorted (map (\<lambda>e. line_num (snd e)) (file_occurrences path n lines))"
proof (induction lines arbitrary: n)
  case Nil
  then show ?case by simp
next
  case (Cons line lines)
  have a: "\<forall>e \<in> set (line_occurrences path n line). line_num (snd e) = n"
    by (auto simp: line_occurrences_def)
  then have "sorted (map (\<lambda>e. line_num (snd e)) (line_occurrences path n line))"
    by (induction "line_occurrences path n line") (auto simp: sorted_wrt_iff_nth_less)
  moreover have "\<forall>e \<in> set (file_occurrences path (n + 1) lines). n + 1 \<le> line_num (snd e)"
    using file_occurrences_lines [of path "n + 1" lines] by auto
  ultimately show ?case using Cons [of "n + 1"] a
    by (auto simp: sorted_append)
qed

lemma scan_file_get:
  "dict_get (scan_file p path idx) code = dict_get idx code @ dict_get (scan_file p path []) code"
  by (cases "read_lines p path") (simp_all add: scan_file_def scan_lines_record dict_get_record_all)

lemma fold_scan_file_get:
  "dict_get (fold (scan_file p) files idx) code =
     dict_get idx code @ concat (map (\<lambda>path. dict_get (scan_file p path []) code) files)"
proof (induction files arbitrary: idx)
  case Nil
  then show ?case by simp
next
  case (Cons f files)
  show ?case using Cons [of "scan_file p f idx"] scan_file_get [of p f idx code] by simp
qed

lemma scan_file_locations:
  "(\<forall>loc \<in> set (dict_get (scan_file p path []) code). file_path loc = path)
   \<and> sorted (map line_num (dict_get (scan_file p path []) code))"
proof (cases "read_lines p path")
  case None
  then show ?thesis by (simp add: scan_file_def)
next
  case (Some lines)
  let ?occs = "file_occurrences path 1 lines"
  have g: "dict_get (scan_file p path []) code = map snd (filter (\<lambda>(key, v). key = code) ?occs)"
    by (simp add: scan_file_def Some scan_lines_record dict_get_record_all)
  have "sorted (map (\<lambda>e. line_num (snd e)) (filter (\<lambda>(key, v). key = code) ?occs))"
    using file_occurrences_sorted [of path 1 lines] by (rule sorted_filter)
  then have "sorted (map line_num (map snd (filter (\<lambda>(key, v). key = code) ?occs)))"
    by (simp add: comp_def)
  moreover have "\<forall>loc \<in> set (map snd (filter (\<lambda>(key, v). key = code) ?occs)). file_path loc = path"
    using file_occurrences_lines [of path 1 lines] by auto
  ultimately show ?thesis by (simp only: g) 
qed

text \<open>
  Claim C7, as amended. The occurrence list of a code follows the order in which the
  files are traversed, which is the order of \<open>java_files\<close> (the target directories in
  the order of the list in the source, each with its files in the order in which
  \<open>glob\<close> returns them; nothing sorts the paths), and within one file the occurrences
  stand in increasing line order: the list is the concatenation, over the files in
  traversal order, of the occurrences of the code in each file.
\<close>

theorem index_follows_traversal_order:
  "dict_get (find_all_error_codes p) code =
     concat (map (\<lambda>path. dict_get (scan_file p path []) code) (java_files p))
   \<and> (\<forall>loc \<in> set (dict_get (scan_file p path []) code). file_path loc = path)
   \<and> sorted (map line_num (dict_get (scan_file p path []) code))"
  using fold_scan_file_get [of p "java_files p" "[]" code] scan_file_locations [of p path code]
  by (simp add: find_all_error_codes_def)

text \<open>
  Claim C7 as stated fails: the occurrence of the lexicographically smaller path
  \<open>common-shared/...\<close> stands after those of \<open>user-features/...\<close>, because
  \<open>user-features\<close> comes first in the list of target directories.
\<close>

theorem index_not_in_sorted_path_order:
  "map (\<lambda>loc. (file_path loc, line_num loc))
     (dict_get (find_all_error_codes order_project) ''202511250001'')
     = [(''user-features/src/main/java/U.java'', 1),
        (''user-features/src/main/java/U.java'', 2),
        (''common-shared/src/main/java/C.java'', 1)]
   \<and> ''common-shared/src/main/java/C.java'' < ''user-features/src/main/java/U.java''"
  by code_simp

text \<open>The theorem of claim C7 at the project of the counterexample.\<close>

theorem index_follows_traversal_order_witness:
  "java_files order_project
     = [''user-features/src/main/java/U.java'', ''common-shared/src/main/java/C.java'']
   \<and> map (\<lambda>loc. (file_path loc, line_num loc))
       (dict_get (scan_file order_project ''user-features/src/main/java/U.java'' []) ''202511250001'')
     = [(''user-features/src/main/java/U.java'', 1), (''user-features/src/main/java/U.java'', 2)]
   \<and> map (\<lambda>loc. (file_path loc, line_num loc))
       (dict_get (scan_file order_project ''common-shared/src/main/java/C.java'' []) ''202511250001'')
     = [(''common-shared/src/main/java/C.java'', 1)]
   \<and> dict_get (find_all_error_codes order_project) ''202511250001''
     = dict_get (scan_file order_project ''user-features/src/main/java/U.java'' []) ''202511250001''
       @ dict_get (scan_file order_project ''common-shared/src/main/java/C.java'' []) ''202511250001''"
  using index_follows_traversal_order [of order_project "''202511250001''"
      "''user-features/src/main/java/U.java''"]
  by code_simp


section \<open>The duplicates of a run\<close>

text \<open>
  In \<open>main\<close> the duplicates passed to \<open>fix_duplicates\<close> are those of the index: their
  codes are distinct and each has more than one occurrence, which are the hypotheses
  under which the kept occurrence was characterised above.
\<close>

lemma dict_append_keys:
  "map fst (dict_append idx key v) = (if key \<in> fst ` set idx then map fst idx else map fst idx @ [key])"
  by (induction idx key v rule: dict_append.induct) auto

lemma record_all_distinct:
  "distinct (map fst idx) \<Longrightarrow> distinct (map fst (record_all occs idx))"
proof (induction occs arbitrary: idx)
  case Nil
  then show ?case by (simp add: record_all_def)
next
  case (Cons e occs)
  obtain key v where e: "e = (key, v)" by (cases e)
  have "distinct (map fst (dict_append idx key v))"
    using Cons.prems by (simp add: dict_append_keys)
  then have "distinct (map fst (record_all occs (dict_append idx key v)))" by (rule Cons.IH)
  then show ?case by (simp add: record_all_def e)
qed

lemma scan_file_distinct:
  "distinct (map fst idx) \<Longrightarrow> distinct (map fst (scan_file p path idx))"
  by (cases "read_lines p path") (simp_all add: scan_file_def scan_lines_record record_all_distinct)

lemma index_keys_distinct: "distinct (map fst (find_all_error_codes p))"
proof -
  have "distinct (map fst idx) \<Longrightarrow> distinct (map fst (fold (scan_file p) files idx))"
    for files idx
    by (induction files arbitrary: idx) (simp_all add: scan_file_distinct)
  from this [of "[]" "java_files p"] show ?thesis by (simp add: find_all_error_codes_def)
qed

lemma duplicates_of_index:
  "distinct (map fst (find_duplicates (find_all_error_codes p)))"
  "(code, locations) \<in> set (find_duplicates (find_all_error_codes p)) \<Longrightarrow> length locations > 1"
  using index_keys_distinct [of p] by (auto simp: find_duplicates_def distinct_map_filter)

section \<open>Inline occurrences\<close>

lemma findall_mem:
  "g \<in> set (re_findall m s) \<Longrightarrow> \<exists>pre rest len. s = pre @ rest \<and> m rest = Some (g, len)"
proof (induction s rule: length_induct)
  case (1 s)
  show ?case
  proof (cases s)
    case Nil
    then show ?thesis using "1.prems" by simp
  next
    case (Cons x xs)
    show ?thesis
    proof (cases "m (x # xs)")
      case None
      then have "g \<in> set (re_findall m xs)" using "1.prems" Cons by simp
      moreover have "length xs < length s" using Cons by simp
      ultimately obtain pre rest len where "xs = pre @ rest" "m rest = Some (g, len)"
        using "1.IH" by blast
      then have "s = (x # pre) @ rest \<and> m rest = Some (g, len)" using Cons by simp
      then show ?thesis by blast
    next
      case (Some a)
      obtain g' len' where a: "a = (g', len')" by (cases a)
      let ?r = "drop (max 1 len') (x # xs)"
      from "1.prems" Cons Some a have "g = g' \<or> g \<in> set (re_findall m ?r)" by simp
      then show ?thesis
      proof
        assume "g = g'"
        then have "s = [] @ s \<and> m s = Some (g, len')" using Some a Cons by simp
        then show ?thesis by blast
      next
        assume "g \<in> set (re_findall m ?r)"
        moreover have "length ?r < length s" using Cons by simp
        ultimately obtain pre rest len where "?r = pre @ rest" "m rest = Some (g, len)"
          using "1.IH" by blast
        moreover have "s = take (max 1 len') (x # xs) @ ?r" using Cons by simp
        ultimately have "s = (take (max 1 len') (x # xs) @ pre) @ rest \<and> m rest = Some (g, len)"
          by simp
        then show ?thesis by blast
      qed
    qed
  qed
qed

lemma opt_lit_cases: "\<exists>sfx. s = sfx @ opt_lit p s \<and> (sfx = [] \<or> sfx = p)"
  by (auto simp: opt_lit_def lit_def prefix_def)

lemma match_inline_shape:
  assumes "match_inline s = Some (code, len)"
  shows "code \<noteq> [] \<and> list_all is_digit code
     \<and> (\<exists>ws1 ws2 sfx ws3 post.
           s = ''BizException.failed'' @ ws1 @ ''('' @ ws2 @ code @ sfx @ ws3 @ '','' @ post
           \<and> list_all is_space (ws1 @ ws2 @ ws3) \<and> (sfx = [] \<or> sfx = ''L''))"
proof -
  from assms obtain s1 s2 s3 s4 where
    1: "lit ''BizException.failed'' s = Some s1"
    and 2: "lit ''('' (dropWhile is_space s1) = Some s2"
    and 3: "many1 is_digit (dropWhile is_space s2) = Some s3"
    and 4: "lit '','' (dropWhile is_space (opt_lit ''L'' s3)) = Some s4"
    and c: "code = takeWhile is_digit (dropWhile is_space s2)"
    by (auto simp: match_inline_def split: option.splits)
  let ?ws1 = "takeWhile is_space s1" and ?ws2 = "takeWhile is_space s2"
  let ?ws3 = "takeWhile is_space (opt_lit ''L'' s3)"
  from 3 have ne: "code \<noteq> []" and s3: "s3 = dropWhile is_digit (dropWhile is_space s2)"
    by (auto simp: many1_def c split: if_splits)
  obtain sfx where sfx: "s3 = sfx @ opt_lit ''L'' s3" "sfx = [] \<or> sfx = ''L''"
    using opt_lit_cases [of s3 "''L''"] by blast
  have a: "s = ''BizException.failed'' @ s1" by (rule lit_Some [OF 1])
  have b: "s1 = ?ws1 @ ''('' @ s2"
    using lit_Some [OF 2] takeWhile_dropWhile_id [of is_space s1] by metis
  have d: "s2 = ?ws2 @ code @ s3"
    unfolding c s3
    using takeWhile_dropWhile_id [of is_space s2]
      takeWhile_dropWhile_id [of is_digit "dropWhile is_space s2"] by metis
  have e: "opt_lit ''L'' s3 = ?ws3 @ '','' @ s4"
    using lit_Some [OF 4] takeWhile_dropWhile_id [of is_space "opt_lit ''L'' s3"] by metis
  have "s = ''BizException.failed'' @ ?ws1 @ ''('' @ ?ws2 @ code @ sfx @ ?ws3 @ '','' @ s4"
    by (subst a, subst b, subst d, subst sfx(1), subst e) simp
  moreover have "list_all is_space (?ws1 @ ?ws2 @ ?ws3)"
    by (auto simp: list_all_iff dest: set_takeWhileD)
  moreover have "list_all is_digit code"
    unfolding c by (auto simp: list_all_iff dest: set_takeWhileD)
  ultimately show ?thesis using ne sfx(2) by blast
qed

lemma re_search_here: "m s \<noteq> None \<Longrightarrow> re_search m s"
  by (cases s) simp_all

lemma re_search_append: "m s \<noteq> None \<Longrightarrow> re_search m (pre @ s)"
  by (induction pre) (simp_all add: re_search_here)

lemma dropWhile_spaces:
  assumes "list_all is_space ws" and "\<not> is_space c"
  shows "dropWhile is_space (ws @ c # rest) = c # rest"
proof -
  have "dropWhile is_space (ws @ c # rest) = dropWhile is_space (c # rest)"
    using assms(1) by (intro dropWhile_append2) (simp add: list_all_iff)
  then show ?thesis using assms(2) by simp
qed

lemma constant_call_matches:
  assumes "list_all is_space ws1" and "list_all is_space ws2"
  shows "match_constant_call (''BizException.failed'' @ ws1 @ ''('' @ ws2 @ ''ERROR_'' @ post) \<noteq> None"
proof -
  have p: "\<not> is_space CHR ''(''" and e: "\<not> is_space CHR ''E''"
    by (simp_all add: is_space_def)
  have 1: "lit ''BizException.failed'' (''BizException.failed'' @ ws1 @ ''('' @ ws2 @ ''ERROR_'' @ post)
      = Some (ws1 @ ''('' @ ws2 @ ''ERROR_'' @ post)"
    by (simp add: lit_def)
  have 2: "lit ''('' (dropWhile is_space (ws1 @ ''('' @ ws2 @ ''ERROR_'' @ post))
      = Some (ws2 @ ''ERROR_'' @ post)"
    using dropWhile_spaces [OF assms(1) p, of "ws2 @ ''ERROR_'' @ post"] by (simp add: lit_def)
  have 3: "lit ''ERROR_'' (dropWhile is_space (ws2 @ ''ERROR_'' @ post)) = Some post"
    using dropWhile_spaces [OF assms(2) e, of "''RROR_'' @ post"] by (simp add: lit_def)
  show ?thesis
    unfolding match_constant_call_def by (simp only: 1 2 3 option.case) simp
qed

lemma scan_line_inline:
  "filter (\<lambda>loc. \<not> is_constant_def loc) (dict_get (scan_line path n line []) code)
     = replicate (count_list (inline_codes line) code) (inline_location path n line)"
proof -
  have a: "filter (\<lambda>loc. \<not> is_constant_def loc)
        (map snd (filter (\<lambda>(key, v). key = code)
           (map (\<lambda>(const_name, c).
                  (c, \<lparr>file_path = path, line_num = n, line_content = strip line,
                       constant_name = Some const_name, is_constant_def = True\<rparr>)) xs))) = []"
    for xs :: "(string \<times> string) list"
    by (induction xs) auto
  have b: "filter (\<lambda>loc. \<not> is_constant_def loc)
        (map snd (filter (\<lambda>(key, v). key = code)
           (map (\<lambda>c. (c, inline_location path n line)) cs)))
      = replicate (count_list cs code) (inline_location path n line)"
    for cs :: "string list"
    by (induction cs) (auto simp: inline_location_def)
  show ?thesis
    using a [of "re_findall match_constant line"] b [of "inline_codes line"]
    by (simp add: scan_line_record dict_get_record_all line_occurrences_def inline_location_def)
qed

text \<open>
  Claim C10. A line with a call \<open>BizException.failed(\<close> whose first argument is a
  constant \<open>ERROR_...\<close> gives no inline code. Every inline code of a line is a
  sequence of digits that is not empty and stands in the line as the first argument of
  a call: after \<open>BizException.failed\<close>, optional white space, the parenthesis and
  optional white space, and before an optional \<open>L\<close>, optional white space and the
  comma. The occurrences of a code that the scan of the line records and that are not
  constant definitions are one inline occurrence for each time the code is among the
  inline codes of the line.
\<close>

theorem only_literal_first_arguments_recorded:
  "(list_all is_space ws1 \<and> list_all is_space ws2 \<longrightarrow>
      inline_codes (pre @ ''BizException.failed'' @ ws1 @ ''('' @ ws2 @ ''ERROR_'' @ post) = [])
   \<and> (\<forall>code \<in> set (inline_codes line).
        code \<noteq> [] \<and> list_all is_digit code
        \<and> (\<exists>pre ws1 ws2 sfx ws3 post.
              line = pre @ ''BizException.failed'' @ ws1 @ ''('' @ ws2 @ code @ sfx @ ws3 @ '','' @ post
              \<and> list_all is_space (ws1 @ ws2 @ ws3) \<and> (sfx = [] \<or> sfx = ''L'')))
   \<and> filter (\<lambda>loc. \<not> is_constant_def loc) (dict_get (scan_line path n line []) code')
       = replicate (count_list (inline_codes line) code') (inline_location path n line)"
proof (intro conjI impI ballI)
  assume "list_all is_space ws1 \<and> list_all is_space ws2"
  then have "match_constant_call (''BizException.failed'' @ ws1 @ ''('' @ ws2 @ ''ERROR_'' @ post) \<noteq> None"
    using constant_call_matches by blast
  then have "re_search match_constant_call
      (pre @ ''BizException.failed'' @ ws1 @ ''('' @ ws2 @ ''ERROR_'' @ post)"
    by (rule re_search_append)
  then show "inline_codes (pre @ ''BizException.failed'' @ ws1 @ ''('' @ ws2 @ ''ERROR_'' @ post) = []"
    by (simp add: inline_codes_def)
next
  fix code assume "code \<in> set (inline_codes line)"
  then have "code \<in> set (re_findall match_inline line)"
    by (auto simp: inline_codes_def split: if_splits)
  from findall_mem [OF this] obtain pre rest len where
    l: "line = pre @ rest" and m: "match_inline rest = Some (code, len)" by blast
  from match_inline_shape [OF m] obtain ws1 ws2 sfx ws3 post where
    c: "code \<noteq> []" "list_all is_digit code"
    and r: "rest = ''BizException.failed'' @ ws1 @ ''('' @ ws2 @ code @ sfx @ ws3 @ '','' @ post"
      "list_all is_space (ws1 @ ws2 @ ws3)" "sfx = [] \<or> sfx = ''L''"
    by blast
  show "code \<noteq> []" by (rule c(1))
  show "list_all is_digit code" by (rule c(2))
  have "line = pre @ ''BizException.failed'' @ ws1 @ ''('' @ ws2 @ code @ sfx @ ws3 @ '','' @ post"
    using l r(1) by simp
  then show "\<exists>pre ws1 ws2 sfx ws3 post.
      line = pre @ ''BizException.failed'' @ ws1 @ ''('' @ ws2 @ code @ sfx @ ws3 @ '','' @ post
      \<and> list_all is_space (ws1 @ ws2 @ ws3) \<and> (sfx = [] \<or> sfx = ''L'')"
    using r(2,3) by blast
next
  show "filter (\<lambda>loc. \<not> is_constant_def loc) (dict_get (scan_line path n line []) code')
       = replicate (count_list (inline_codes line) code') (inline_location path n line)"
    by (rule scan_line_inline)
qed

text \<open>The theorem of claim C10 at concrete lines.\<close>

theorem only_literal_first_arguments_recorded_witness:
  "list_all is_space [] \<and> list_all is_space '' ''
   \<and> inline_codes (''throw '' @ ''BizException.failed'' @ [] @ ''('' @ '' '' @ ''ERROR_''
        @ ''X, a); BizException.failed(2L, b);'') = []
   \<and> inline_codes ''throw BizException.failed( 12L , x); BizException.failed(7, y);'' = [''12'', ''7'']
   \<and> inline_codes ''throw BizException.failed(CODE_A, x);'' = []
   \<and> dict_get (scan_line ''A.java'' 3 ''throw BizException.failed( 12L , x);'' []) ''12''
       = [inline_location ''A.java'' 3 ''throw BizException.failed( 12L , x);'']"
proof -
  have h: "list_all is_space [] \<and> list_all is_space '' ''" by code_simp
  have e: "inline_codes ''throw BizException.failed( 12L , x); BizException.failed(7, y);'' = [''12'', ''7'']"
    "inline_codes ''throw BizException.failed(CODE_A, x);'' = []"
    "dict_get (scan_line ''A.java'' 3 ''throw BizException.failed( 12L , x);'' []) ''12''
       = [inline_location ''A.java'' 3 ''throw BizException.failed( 12L , x);'']"
    by code_simp+
  from only_literal_first_arguments_recorded [of "[]" "'' ''" "''throw ''"
      "''X, a); BizException.failed(2L, b);''"
      "''throw BizException.failed( 12L , x); BizException.failed(7, y);''"
      "''A.java''" 3 "''12''"] h
  have "inline_codes (''throw '' @ ''BizException.failed'' @ [] @ ''('' @ '' '' @ ''ERROR_''
        @ ''X, a); BizException.failed(2L, b);'') = []"
    by blast
  with h e show ?thesis by blast
qed


section \<open>A run of the resolver in fix mode\<close>

text \<open>
  Claim C1 at a concrete project. The pattern of the scan accepts a constant whose
  literal has no \<open>L\<close> suffix, so the code of the two files is found twice and a change
  with a new code is planned for the second file. The patch of a constant definition
  replaces the old code followed by \<open>L\<close> only; the line has no such text, the file is
  written back as it was, and the index built after the run still has the code twice.
\<close>

theorem fix_leaves_constant_without_suffix_duplicated:
  "length (dict_get (find_all_error_codes suffix_project) ''202511250001'') = 2
   \<and> map new_code (fst (fix_duplicates (\<lambda>_. ''20251218'') suffix_project
         (find_duplicates (find_all_error_codes suffix_project))
         (get_all_existing_codes (find_all_error_codes suffix_project)) False))
       = [''202512180001'']
   \<and> fst (resolver_main True (\<lambda>_. ''20251218'') suffix_project) = 1
   \<and> read_lines (snd (resolver_main True (\<lambda>_. ''20251218'') suffix_project))
         ''cage-features/src/main/java/B.java''
       = Some [''private static final long ERROR_X = 202511250001;'' @ [CHR 0x0A]]
   \<and> length (dict_get
         (find_all_error_codes (snd (resolver_main True (\<lambda>_. ''20251218'') suffix_project)))
         ''202511250001'') = 2"
  by code_simp

text \<open>
  With the suffix, which is the example of the specification, the second file gets the
  new code and every code of the index built after the run has one occurrence.
\<close>

lemma fix_rewrites_constant_with_suffix:
  "length (dict_get (find_all_error_codes spec_example_project) ''202511250001'') = 2
   \<and> read_lines (snd (resolver_main True (\<lambda>_. ''20251218'') spec_example_project))
         ''cage-features/src/main/java/A.java''
       = Some [''private static final long ERROR_X = 202511250001L;'' @ [CHR 0x0A]]
   \<and> read_lines (snd (resolver_main True (\<lambda>_. ''20251218'') spec_example_project))
         ''cage-features/src/main/java/B.java''
       = Some [''private static final long ERROR_X = 202512180001L;'' @ [CHR 0x0A]]
   \<and> map (\<lambda>(code, locations). (code, length locations))
         (find_all_error_codes (snd (resolver_main True (\<lambda>_. ''20251218'') spec_example_project)))
       = [(''202511250001'', 1), (''202512180001'', 1)]"
  by code_simp


text \<open>
  Claim C3 at a concrete project. The change records choose the occurrences as the
  claim says: of the code 5 the occurrence in the first file is kept and the one in
  the second file gets a new code; of the code 15 the occurrence in the second file is
  kept and the one in the third file gets a new code. The patch of the second file
  replaces the first \<open>5L\<close> of the line, which is the end of \<open>15L\<close>: the kept
  occurrence of the code 15 is rewritten, to a code that is neither the old nor the
  new one, and the occurrence of the code 5 that was to be replaced keeps its code.
  After the run the code 15 is gone from the project and the code 5 still has both of
  its occurrences.
\<close>

theorem fix_rewrites_kept_occurrence:
  "map (\<lambda>(code, locations). (code, map (\<lambda>l. (file_path l, line_num l, constant_name l)) locations))
       (find_duplicates (find_all_error_codes collision_project))
     = [(''5'', [(''cage-features/src/main/java/A.java'', 1, Some ''ERROR_B''),
                 (''cage-features/src/main/java/B.java'', 1, Some ''ERROR_B'')]),
        (''15'', [(''cage-features/src/main/java/B.java'', 1, Some ''ERROR_A''),
                  (''cage-features/src/main/java/C.java'', 1, Some ''ERROR_A'')])]
   \<and> map (\<lambda>ch. (change_file ch, change_line ch, old_code ch, new_code ch, const_name ch))
       (fst (fix_duplicates (\<lambda>_. ''20251218'') collision_project
         (find_duplicates (find_all_error_codes collision_project))
         (get_all_existing_codes (find_all_error_codes collision_project)) False))
     = [(''cage-features/src/main/java/B.java'', 1, ''5'', ''202512180001'', Some ''ERROR_B''),
        (''cage-features/src/main/java/C.java'', 1, ''15'', ''202512180002'', Some ''ERROR_A'')]
   \<and> fst (resolver_main True (\<lambda>_. ''20251218'') collision_project) = 1
   \<and> read_lines (snd (resolver_main True (\<lambda>_. ''20251218'') collision_project))
         ''cage-features/src/main/java/A.java''
       = Some [''private static final long ERROR_B = 5L;'' @ [CHR 0x0A]]
   \<and> read_lines (snd (resolver_main True (\<lambda>_. ''20251218'') collision_project))
         ''cage-features/src/main/java/B.java''
       = Some [''private static final long ERROR_A = 1202512180001L; private static final long ERROR_B = 5L;''
                 @ [CHR 0x0A]]
   \<and> read_lines (snd (resolver_main True (\<lambda>_. ''20251218'') collision_project))
         ''cage-features/src/main/java/C.java''
       = Some [''private static final long ERROR_A = 202512180002L;'' @ [CHR 0x0A]]
   \<and> map (\<lambda>(code, locations). (code, map (\<lambda>l. (file_path l, line_num l, constant_name l)) locations))
       (find_all_error_codes (snd (resolver_main True (\<lambda>_. ''20251218'') collision_project)))
     = [(''5'', [(''cage-features/src/main/java/A.java'', 1, Some ''ERROR_B''),
                 (''cage-features/src/main/java/B.java'', 1, Some ''ERROR_B'')]),
        (''1202512180001'', [(''cage-features/src/main/java/B.java'', 1, Some ''ERROR_A'')]),
        (''202512180002'', [(''cage-features/src/main/java/C.java'', 1, Some ''ERROR_A'')])]"
  by code_simp


section \<open>Exit status\<close>

text \<open>
  The resolver returns 0 when it finds no duplicate and 1 when it finds one, in check
  mode without touching the project; the rewriter returns 1 and leaves every file as
  it is when the date fails its format check.
\<close>

lemma resolver_exit_status:
  "find_duplicates (find_all_error_codes p) = [] \<Longrightarrow> resolver_main fix today p = (0, p)"
  "find_duplicates (find_all_error_codes p) \<noteq> [] \<Longrightarrow> resolver_main False today p = (1, p)"
  "find_duplicates (find_all_error_codes p) \<noteq> [] \<Longrightarrow> fst (resolver_main True today p) = 1"
  by (simp_all add: resolver_main_def Let_def)

lemma rewriter_rejects_date:
  "\<not> date_format_ok date \<Longrightarrow> rewriter_main date dry_run dirs start_counter rglob files = (Exit 1, files)"
  by (simp add: rewriter_main_def)

text \<open>
  The format check accepts eight digits, and also eight digits followed by one line
  feed, because \<open>$\<close> matches before a line feed that ends the text.
\<close>

lemma date_format_ok_iff:
  "date_format_ok date \<longleftrightarrow>
     (length date = 8 \<and> list_all is_digit date)
     \<or> (\<exists>ds. date = ds @ [CHR 0x0A] \<and> length ds = 8 \<and> list_all is_digit ds)"
proof
  assume a: "date_format_ok date"
  then have l: "8 \<le> length date" and d: "list_all is_digit (take 8 date)"
    and r: "drop 8 date = [] \<or> drop 8 date = [CHR 0x0A]"
    by (auto simp: date_format_ok_def)
  from r show "(length date = 8 \<and> list_all is_digit date)
     \<or> (\<exists>ds. date = ds @ [CHR 0x0A] \<and> length ds = 8 \<and> list_all is_digit ds)"
  proof
    assume "drop 8 date = []"
    then have "length date = 8" using l by simp
    then show ?thesis using d by simp
  next
    assume e: "drop 8 date = [CHR 0x0A]"
    have "date = take 8 date @ drop 8 date" by simp
    then have "date = take 8 date @ [CHR 0x0A]" using e by simp
    moreover have "length (take 8 date) = 8" using l by simp
    ultimately show ?thesis using d by blast
  qed
next
  assume "(length date = 8 \<and> list_all is_digit date)
     \<or> (\<exists>ds. date = ds @ [CHR 0x0A] \<and> length ds = 8 \<and> list_all is_digit ds)"
  then show "date_format_ok date" by (auto simp: date_format_ok_def)
qed

text \<open>
  Claim C9 at a concrete date. A date of eight digits and a line feed is not eight
  decimal digits, yet the rewriter does not exit with status 1: it converts the file,
  with the line feed inside the generated code, and returns 0.
\<close>

theorem date_with_line_feed_accepted:
  "\<not> (length (''20251218'' @ [CHR 0x0A]) = 8 \<and> list_all is_digit (''20251218'' @ [CHR 0x0A]))
   \<and> fst (rewriter_main (''20251218'' @ [CHR 0x0A]) False [''cage-features''] 1
        (\<lambda>dir_name. if dir_name = ''cage-features'' then Some [''A.java''] else None)
        [''A.java'' \<mapsto> ''throw new IllegalArgumentException(x);'']) = Exit 0
   \<and> snd (rewriter_main (''20251218'' @ [CHR 0x0A]) False [''cage-features''] 1
        (\<lambda>dir_name. if dir_name = ''cage-features'' then Some [''A.java''] else None)
        [''A.java'' \<mapsto> ''throw new IllegalArgumentException(x);'']) ''A.java''
      = Some (''throw BizException.failed(20251218'' @ [CHR 0x0A] @ ''00001L,x);'')"
  by code_simp


end
